theory Spec2Isabelle
  imports Complex_Main "HOL-Library.Word"
begin

unbundle bit_operations_syntax

section \<open>The insertion-ordered Map of the runtime\<close>

text \<open>
  The cache of \<^verbatim>\<open>src/server.js\<close> and of \<^verbatim>\<open>src/unnamed/part_000\<close> is a JavaScript
  \<^verbatim>\<open>Map\<close>. A \<^verbatim>\<open>Map\<close> iterates its entries in insertion order, and the LRU class relies
  on that order, so the map is a list of entries, oldest insertion first. Stored values
  range over a type \<open>'v\<close> of values other than \<^verbatim>\<open>undefined\<close> (the only caller stores a
  freshly built response object); \<open>None\<close> stands for \<^verbatim>\<open>undefined\<close>.
\<close>

type_synonym ('k, 'v) js_map = "('k \<times> 'v) list"

definition Map_get :: "('k, 'v) js_map \<Rightarrow> 'k \<Rightarrow> 'v option" where
  "Map_get m key = map_of m key"

definition Map_has :: "('k, 'v) js_map \<Rightarrow> 'k \<Rightarrow> bool" where
  "Map_has m key = (key \<in> fst ` set m)"

definition Map_delete :: "'k \<Rightarrow> ('k, 'v) js_map \<Rightarrow> ('k, 'v) js_map" where
  "Map_delete key m = filter (\<lambda>e. fst e \<noteq> key) m"

text \<open>\<^verbatim>\<open>Map.prototype.set\<close>: an existing key keeps its position, a new key goes last.\<close>

fun Map_set :: "'k \<Rightarrow> 'v \<Rightarrow> ('k, 'v) js_map \<Rightarrow> ('k, 'v) js_map" where
  "Map_set key val [] = [(key, val)]"
| "Map_set key val (e # m) = (if fst e = key then (key, val) # m else e # Map_set key val m)"

definition Map_size :: "('k, 'v) js_map \<Rightarrow> nat" where
  "Map_size m = length m"

definition Map_keys :: "('k, 'v) js_map \<Rightarrow> 'k list" where
  "Map_keys m = map fst m"

section \<open>The LRU class\<close>

text \<open>
  \<^verbatim>\<open>class LRU { constructor(max) { this.max = max; this.map = new Map(); } ... }\<close>
  The capacity is the number read from the configuration, an integer that may be zero
  or negative.
\<close>

record ('k, 'v) LRU =
  max_lru :: int
  map_lru :: "('k, 'v) js_map"

definition LRU_new :: "int \<Rightarrow> ('k, 'v) LRU" where
  "LRU_new mx = \<lparr>max_lru = mx, map_lru = []\<rparr>"

text \<open>
  \<^verbatim>\<open>get(key)\<close>: a present key is deleted and inserted again, which moves it to the end
  of the iteration order. The result is the value (or \<open>None\<close>) and the cache afterwards.
\<close>

definition LRU_get :: "'k \<Rightarrow> ('k, 'v) LRU \<Rightarrow> 'v option \<times> ('k, 'v) LRU" where
  "LRU_get key c =
     (case Map_get (map_lru c) key of
        None \<Rightarrow> (None, c)
      | Some v \<Rightarrow> (Some v, c\<lparr>map_lru := Map_set key v (Map_delete key (map_lru c))\<rparr>))"

text \<open>
  \<^verbatim>\<open>set(key, val)\<close>: nothing when \<^verbatim>\<open>max <= 0\<close>; otherwise the key is re-inserted last and,
  when the size exceeds \<^verbatim>\<open>max\<close>, the first key of the iteration order is deleted.
  \<^verbatim>\<open>this.map.keys().next().value\<close> is \<^verbatim>\<open>undefined\<close> on an empty map, and deleting it
  changes nothing.
\<close>

definition LRU_set :: "'k \<Rightarrow> 'v \<Rightarrow> ('k, 'v) LRU \<Rightarrow> ('k, 'v) LRU" where
  "LRU_set key val c =
     (if max_lru c \<le> 0 then c
      else
        let m1 = (if Map_has (map_lru c) key then Map_delete key (map_lru c) else map_lru c);
            m2 = Map_set key val m1;
            m3 = (if int (Map_size m2) > max_lru c
                  then (case Map_keys m2 of [] \<Rightarrow> m2 | firstKey # _ \<Rightarrow> Map_delete firstKey m2)
                  else m2)
        in c\<lparr>map_lru := m3\<rparr>)"

text \<open>A history of calls on one cache, run from left to right.\<close>

datatype ('k, 'v) lru_op = Get 'k | Set 'k 'v

fun lru_step :: "('k, 'v) LRU \<Rightarrow> ('k, 'v) lru_op \<Rightarrow> ('k, 'v) LRU" where
  "lru_step c (Get key) = snd (LRU_get key c)"
| "lru_step c (Set key val) = LRU_set key val c"

definition lru_run :: "('k, 'v) lru_op list \<Rightarrow> ('k, 'v) LRU \<Rightarrow> ('k, 'v) LRU" where
  "lru_run ops c = foldl lru_step c ops"

text \<open>
  The time of the last call of a history that names a key, counting the calls from 1,
  and 0 when no call names it. This follows the words "least recently used": of the
  stored keys, the least recently used one is the key with the smallest such time.
  A \<^verbatim>\<open>get\<close> that misses names a key that is not stored, so it moves no stored key.
\<close>

fun touches :: "('k, 'v) lru_op \<Rightarrow> 'k \<Rightarrow> bool" where
  "touches (Get key) k = (key = k)"
| "touches (Set key val) k = (key = k)"

definition last_use :: "('k, 'v) lru_op list \<Rightarrow> 'k \<Rightarrow> nat" where
  "last_use ops k = length ops - length (takeWhile (\<lambda>op. \<not> touches op k) (rev ops))"

text \<open>The entries are in the order of the last use of their keys, oldest first.\<close>

definition by_last_use :: "('k, 'v) lru_op list \<Rightarrow> ('k, 'v) js_map \<Rightarrow> bool" where
  "by_last_use ops m = sorted_wrt (\<lambda>a b. last_use ops a < last_use ops b) (Map_keys m)"

section \<open>Strings and numbers of the runtime\<close>

text \<open>
  A JavaScript string is a sequence of UTF-16 code units: \<^verbatim>\<open>length\<close> counts them,
  \<^verbatim>\<open>charCodeAt\<close> reads one, \<^verbatim>\<open>slice\<close> cuts between them.
\<close>

type_synonym js_string = "16 word list"

text \<open>The code units of a text of ASCII characters.\<close>

definition ascii :: "string \<Rightarrow> js_string" where
  "ascii s = map (\<lambda>c. of_nat (of_char c)) s"

text \<open>
  \<^verbatim>\<open>String.prototype.trim\<close> removes the white space and line terminator code points of
  ECMAScript from both ends; all of them are single code units.
\<close>

definition isWhiteSpace :: "16 word \<Rightarrow> bool" where
  "isWhiteSpace c \<longleftrightarrow>
     c \<in> set [0x0009, 0x000A, 0x000B, 0x000C, 0x000D, 0x0020, 0x00A0, 0x1680,
              0x2000, 0x2001, 0x2002, 0x2003, 0x2004, 0x2005, 0x2006, 0x2007,
              0x2008, 0x2009, 0x200A, 0x2028, 0x2029, 0x202F, 0x205F, 0x3000, 0xFEFF]"

definition trim :: "js_string \<Rightarrow> js_string" where
  "trim s = rev (dropWhile isWhiteSpace (rev (dropWhile isWhiteSpace s)))"

text \<open>
  \<^verbatim>\<open>s.slice(0, end)\<close>: a negative \<^verbatim>\<open>end\<close> counts from the end of the string, and the cut
  never leaves the string.
\<close>

definition slice0 :: "int \<Rightarrow> js_string \<Rightarrow> js_string" where
  "slice0 end s =
     (let len = int (length s);
          final = (if end < 0 then max (len + end) 0 else min end len)
      in take (nat final) s)"

text \<open>The decimal digits of an integer, as a template literal prints it.\<close>

fun digits :: "nat \<Rightarrow> js_string" where
  "digits n = (if n < 10 then [48 + of_nat n] else digits (n div 10) @ [48 + of_nat (n mod 10)])"

declare digits.simps [simp del]

definition String_int :: "int \<Rightarrow> js_string" where
  "String_int i = (if i < 0 then 45 # digits (nat (- i)) else digits (nat i))"

text \<open>
  \<^verbatim>\<open>fnv1a\<close> of \<^verbatim>\<open>src/server.js\<close>. The operators \<^verbatim>\<open>^=\<close> and \<^verbatim>\<open>Math.imul\<close> work on the low
  32 bits of \<^verbatim>\<open>h\<close>, and \<^verbatim>\<open>h >>> 0\<close> reads them as an unsigned number.
\<close>

fun fnv1a_loop :: "32 word \<Rightarrow> js_string \<Rightarrow> 32 word" where
  "fnv1a_loop h [] = h"
| "fnv1a_loop h (c # str) = fnv1a_loop ((h XOR ucast c) * 16777619) str"

definition fnv1a :: "js_string \<Rightarrow> nat" where
  "fnv1a str = unat (fnv1a_loop 2166136261 str)"

section \<open>Configuration, requests and responses\<close>

record config =
  CACHE_MAX :: int
  MIN_LEN :: int
  MAX_INPUT_CHARS :: int

text \<open>The values the constants take when the environment sets none of them.\<close>

definition default_config :: config where
  "default_config = \<lparr>CACHE_MAX = 5000, MIN_LEN = 10, MAX_INPUT_CHARS = 4000\<rparr>"

text \<open>
  The body of \<^verbatim>\<open>POST /classify\<close> once the schema has accepted it: \<^verbatim>\<open>text\<close> is a string and
  \<^verbatim>\<open>topN\<close> an integer or absent.
\<close>

record body =
  body_text :: js_string
  body_topN :: "int option"

record lang_result =
  language :: string
  probability :: real
  is_reliable :: bool
  proportion :: real

datatype cld3_result = Single lang_result | Ranked "lang_result list"

record response =
  input_len :: nat
  cld3 :: cld3_result

datatype reply =
    Reply_response response
  | Reply_error nat string
  | Reply_ok nat bool

fun status :: "reply \<Rightarrow> nat" where
  "status (Reply_response out) = 200"
| "status (Reply_error code msg) = code"
| "status (Reply_ok code ok) = code"

section \<open>The detector handle and the state of the service\<close>

text \<open>
  Every call on the cache and on the detector handle is recorded, in order, so that
  "the cache is not read" and "the detector is not invoked" are statements about the
  record.
\<close>

datatype event =
    Cache_get js_string
  | Cache_set js_string response
  | Find_language js_string
  | Find_most_frequent_languages js_string int

fun is_detector_call :: "event \<Rightarrow> bool" where
  "is_detector_call (Find_language t) = True"
| "is_detector_call (Find_most_frequent_languages t n) = True"
| "is_detector_call _ = False"

fun detector_input :: "event \<Rightarrow> js_string option" where
  "detector_input (Find_language t) = Some t"
| "detector_input (Find_most_frequent_languages t n) = Some t"
| "detector_input _ = None"

fun detector_inputs :: "event list \<Rightarrow> js_string list" where
  "detector_inputs [] = []"
| "detector_inputs (e # tr) =
     (case detector_input e of None \<Rightarrow> detector_inputs tr | Some t \<Rightarrow> t # detector_inputs tr)"

text \<open>
  The handle of the language identifier is opaque. Its two operations return a value;
  what they return may depend on everything that happened before the call.
\<close>

record detector =
  findLanguage :: "event list \<Rightarrow> js_string \<Rightarrow> lang_result"
  findMostFrequentLanguages :: "event list \<Rightarrow> js_string \<Rightarrow> int \<Rightarrow> lang_result list"

text \<open>\<^verbatim>\<open>let identifier = null\<close> and \<^verbatim>\<open>const cache = new LRU(CACHE_MAX)\<close>, with the record of calls.\<close>

record gateway =
  identifier_gw :: "detector option"
  cache :: "(js_string, response) LRU"
  trace :: "event list"

definition initial :: "config \<Rightarrow> gateway" where
  "initial cfg = \<lparr>identifier_gw = None, cache = LRU_new (CACHE_MAX cfg), trace = []\<rparr>"

section \<open>The handler of POST /classify\<close>

text \<open>\<^verbatim>\<open>req.body.topN || 1\<close>: an absent and a zero \<^verbatim>\<open>topN\<close> both give 1.\<close>

definition topN_of :: "body \<Rightarrow> int" where
  "topN_of b = (case body_topN b of None \<Rightarrow> 1 | Some n \<Rightarrow> if n = 0 then 1 else n)"

text \<open>The values of \<^verbatim>\<open>topN\<close> the schema of the route accepts: integers from 1 to 10.\<close>

definition topN_range :: "int list" where
  "topN_range = [1, 2, 3, 4, 5, 6, 7, 8, 9, 10]"

definition und :: lang_result where
  "und = \<lparr>language = ''und'', probability = 0, is_reliable = False, proportion = 0\<rparr>"

definition cache_get :: "js_string \<Rightarrow> gateway \<Rightarrow> response option \<times> gateway" where
  "cache_get key s =
     (let (hit, c) = LRU_get key (cache s)
      in (hit, s\<lparr>cache := c, trace := trace s @ [Cache_get key]\<rparr>))"

definition cache_set :: "js_string \<Rightarrow> response \<Rightarrow> gateway \<Rightarrow> gateway" where
  "cache_set key out s =
     s\<lparr>cache := LRU_set key out (cache s), trace := trace s @ [Cache_set key out]\<rparr>"

text \<open>
  \<^verbatim>\<open>topN === 1 ? identifier.findLanguage(text) : identifier.findMostFrequentLanguages(text, topN)\<close>
\<close>

definition detect :: "detector \<Rightarrow> int \<Rightarrow> js_string \<Rightarrow> gateway \<Rightarrow> cld3_result \<times> gateway" where
  "detect ident topN text s =
     (if topN = 1
      then (Single (findLanguage ident (trace s) text),
            s\<lparr>trace := trace s @ [Find_language text]\<rparr>)
      else (Ranked (findMostFrequentLanguages ident (trace s) text topN),
            s\<lparr>trace := trace s @ [Find_most_frequent_languages text topN]\<rparr>))"

text \<open>
  The end of the handler, the same in both files (\<^verbatim>\<open>src/server.js\<close> lines 139 to 155,
  \<^verbatim>\<open>src/unnamed/part_000\<close> lines 118 to 135): probe the cache, return a hit, else ask
  the detector, wrap the result, store it and return it. A stored response is an
  object, so \<^verbatim>\<open>if (hit)\<close> holds for every hit.
\<close>

definition lookup_or_detect ::
  "detector \<Rightarrow> int \<Rightarrow> js_string \<Rightarrow> js_string \<Rightarrow> gateway \<Rightarrow> reply \<times> gateway" where
  "lookup_or_detect ident topN text key s =
     (case cache_get key s of
        (Some hit, s1) \<Rightarrow> (Reply_response hit, s1)
      | (None, s1) \<Rightarrow>
          (let (result, s2) = detect ident topN text s1;
               out = \<lparr>input_len = length text, cld3 = result\<rparr>
           in (Reply_response out, cache_set key out s2)))"

text \<open>\<^verbatim>\<open>src/server.js\<close>: \<^verbatim>\<open>raw.trim().slice(0, MAX_INPUT_CHARS)\<close>.\<close>

definition normalize_input :: "config \<Rightarrow> js_string \<Rightarrow> js_string" where
  "normalize_input cfg raw = slice0 (MAX_INPUT_CHARS cfg) (trim raw)"

text \<open>\<^verbatim>\<open>src/server.js\<close>: the key \<^verbatim>\<open>`${topN}:${fnv1a(text)}:${text.length}`\<close>.\<close>

definition cache_key :: "int \<Rightarrow> js_string \<Rightarrow> js_string" where
  "cache_key topN text =
     String_int topN @ [58] @ String_int (int (fnv1a text)) @ [58] @ String_int (int (length text))"

text \<open>The handler of \<^verbatim>\<open>src/server.js\<close>.\<close>

definition classify :: "config \<Rightarrow> body \<Rightarrow> gateway \<Rightarrow> reply \<times> gateway" where
  "classify cfg b s =
     (case identifier_gw s of
        None \<Rightarrow> (Reply_error 503 ''Detector not ready yet.'', s)
      | Some ident \<Rightarrow>
          (let topN = topN_of b;
               raw = body_text b;
               text = normalize_input cfg raw
           in if text = [] then (Reply_error 400 ''Empty 'text'.'', s)
              else if MIN_LEN cfg > 0 \<and> int (length text) < MIN_LEN cfg
              then (Reply_response
                      \<lparr>input_len = length text,
                       cld3 = (if topN = 1 then Single und else Ranked [])\<rparr>, s)
              else lookup_or_detect ident topN text (cache_key topN text) s))"

text \<open>
  \<^verbatim>\<open>src/unnamed/part_000\<close>: the key is the text itself when \<^verbatim>\<open>topN\<close> is 1, and
  \<^verbatim>\<open>`${topN}\u0000${text}`\<close> otherwise.
\<close>

definition cache_key_part000 :: "int \<Rightarrow> js_string \<Rightarrow> js_string" where
  "cache_key_part000 topN text = (if topN = 1 then text else String_int topN @ [0] @ text)"

text \<open>
  The handler of \<^verbatim>\<open>src/unnamed/part_000\<close>. The text is trimmed and not cut, the short
  text answer does not look at \<^verbatim>\<open>topN\<close>, and \<^verbatim>\<open>topN\<close> is read after it.
\<close>

definition classify_part000 :: "config \<Rightarrow> body \<Rightarrow> gateway \<Rightarrow> reply \<times> gateway" where
  "classify_part000 cfg b s =
     (case identifier_gw s of
        None \<Rightarrow> (Reply_error 503 ''Detector not ready yet.'', s)
      | Some ident \<Rightarrow>
          (let text = trim (body_text b)
           in if text = [] then (Reply_error 400 ''Empty 'text'.'', s)
              else if MIN_LEN cfg > 0 \<and> int (length text) < MIN_LEN cfg
              then (Reply_response \<lparr>input_len = length text, cld3 = Single und\<rparr>, s)
              else (let topN = topN_of b;
                        key = cache_key_part000 topN text
                    in lookup_or_detect ident topN text key s)))"

section \<open>Start of the process and the routes\<close>

text \<open>
  The module body runs its statements in order, and each \<^verbatim>\<open>await\<close> finishes before the
  next statement starts. A call into a library either returns or throws; a throw at the
  top level ends the module body, so nothing after it runs.
\<close>

datatype 'a outcome = Throws | Returns 'a

text \<open>
  What the libraries do during one start: registering the plugins, \<^verbatim>\<open>loadModule()\<close>
  followed by \<^verbatim>\<open>factory.create(...)\<close>, which yields a handle, and \<^verbatim>\<open>app.listen(...)\<close>.
\<close>

record startup =
  register_plugins :: "unit outcome"
  load_and_create :: "detector outcome"
  listen :: "unit outcome"

record process =
  gw :: gateway
  listening :: bool

definition initDetector :: "detector outcome \<Rightarrow> gateway \<Rightarrow> gateway outcome" where
  "initDetector created s =
     (case created of
        Throws \<Rightarrow> Throws
      | Returns handle \<Rightarrow> Returns (s\<lparr>identifier_gw := Some handle\<rparr>))"

definition main :: "config \<Rightarrow> startup \<Rightarrow> process" where
  "main cfg env =
     (let s0 = initial cfg
      in case register_plugins env of
           Throws \<Rightarrow> \<lparr>gw = s0, listening = False\<rparr>
         | Returns _ \<Rightarrow>
             (case initDetector (load_and_create env) s0 of
                Throws \<Rightarrow> \<lparr>gw = s0, listening = False\<rparr>
              | Returns s1 \<Rightarrow>
                  (case listen env of
                     Throws \<Rightarrow> \<lparr>gw = s1, listening = False\<rparr>
                   | Returns _ \<Rightarrow> \<lparr>gw = s1, listening = True\<rparr>)))"

text \<open>
  What reaches a listening process: the three routes and a termination signal. The
  signal closes the server, disposes the handle and exits; it does not assign
  \<^verbatim>\<open>identifier\<close>.
\<close>

datatype request = Health | Ready | Classify body | Signal

type_synonym handler = "config \<Rightarrow> body \<Rightarrow> gateway \<Rightarrow> reply \<times> gateway"

fun route :: "handler \<Rightarrow> config \<Rightarrow> request \<Rightarrow> gateway \<Rightarrow> reply \<times> gateway" where
  "route h cfg Health s = (Reply_ok 200 True, s)"
| "route h cfg Ready s =
     (if identifier_gw s = None then (Reply_ok 503 False, s) else (Reply_ok 200 True, s))"
| "route h cfg (Classify b) s = h cfg b s"
| "route h cfg Signal s = (Reply_ok 200 True, s)"

text \<open>
  The replies to the requests a process serves, in order. A process that is not
  listening serves nothing, and a signal ends the serving.
\<close>

fun serve :: "handler \<Rightarrow> config \<Rightarrow> request list \<Rightarrow> process \<Rightarrow> reply list" where
  "serve h cfg [] p = []"
| "serve h cfg (Signal # rs) p = []"
| "serve h cfg (r # rs) p =
     (if listening p
      then (let (rep, s') = route h cfg r (gw p) in rep # serve h cfg rs (p\<lparr>gw := s'\<rparr>))
      else [])"

section \<open>A test double and sample states\<close>

text \<open>A detector that always answers English, a ready service, and one with a stored entry.\<close>

definition stub_detector :: detector where
  "stub_detector =
     \<lparr>findLanguage = (\<lambda>past t. \<lparr>language = ''en'', probability = 1, is_reliable = True, proportion = 1\<rparr>),
      findMostFrequentLanguages = (\<lambda>past t n. [])\<rparr>"

definition ready :: "config \<Rightarrow> gateway" where
  "ready cfg = (initial cfg)\<lparr>identifier_gw := Some stub_detector\<rparr>"

definition warm :: "config \<Rightarrow> gateway" where
  "warm cfg = (ready cfg)\<lparr>cache := \<lparr>max_lru = CACHE_MAX cfg,
      map_lru = [(ascii ''1:123:20'', \<lparr>input_len = 20, cld3 = Single und\<rparr>)]\<rparr>\<rparr>"

definition sample_startup :: "detector outcome \<Rightarrow> startup" where
  "sample_startup created =
     \<lparr>register_plugins = Returns (), load_and_create = created, listen = Returns ()\<rparr>"

section \<open>Facts about the Map operations\<close>

lemma Map_set_fresh: "key \<notin> fst ` set m \<Longrightarrow> Map_set key val m = m @ [(key, val)]"
  by (induction m) auto

lemma Map_delete_absent: "key \<notin> fst ` set (Map_delete key m)"
  by (auto simp: Map_delete_def)

lemma Map_delete_id: "key \<notin> fst ` set m \<Longrightarrow> Map_delete key m = m"
  by (induction m) (auto simp: Map_delete_def)

lemma Map_get_None_iff: "Map_get m key = None \<longleftrightarrow> key \<notin> fst ` set m"
  by (simp add: Map_get_def map_of_eq_None_iff)

lemma first_key_delete:
  "m \<noteq> [] \<Longrightarrow>
   (case Map_keys m of [] \<Rightarrow> m | firstKey # _ \<Rightarrow> Map_delete firstKey m) = Map_delete (fst (hd m)) m"
  by (cases m) (simp_all add: Map_keys_def)

text \<open>What \<^verbatim>\<open>set\<close> leaves behind on an enabled cache, with the re-insertion resolved.\<close>

lemma LRU_set_entries:
  assumes pos: "0 < max_lru c"
  shows "map_lru (LRU_set key val c) =
     (let m2 = Map_delete key (map_lru c) @ [(key, val)]
      in if int (length m2) > max_lru c then Map_delete (fst (hd m2)) m2 else m2)"
proof -
  have m1: "(if Map_has (map_lru c) key then Map_delete key (map_lru c) else map_lru c)
            = Map_delete key (map_lru c)"
    by (simp add: Map_has_def Map_delete_id)
  have m2: "Map_set key val (Map_delete key (map_lru c)) = Map_delete key (map_lru c) @ [(key, val)]"
    by (rule Map_set_fresh) (rule Map_delete_absent)
  have "map_lru (LRU_set key val c) =
     (if int (Map_size (Map_delete key (map_lru c) @ [(key, val)])) > max_lru c
      then (case Map_keys (Map_delete key (map_lru c) @ [(key, val)]) of
              [] \<Rightarrow> Map_delete key (map_lru c) @ [(key, val)]
            | firstKey # _ \<Rightarrow> Map_delete firstKey (Map_delete key (map_lru c) @ [(key, val)]))
      else Map_delete key (map_lru c) @ [(key, val)])"
    using pos unfolding LRU_set_def Let_def m1 m2 by simp
  also have "\<dots> = (let m2 = Map_delete key (map_lru c) @ [(key, val)]
      in if int (length m2) > max_lru c then Map_delete (fst (hd m2)) m2 else m2)"
    unfolding Let_def Map_size_def by (subst first_key_delete) simp_all
  finally show ?thesis .
qed

lemma LRU_get_entries:
  "map_lru (snd (LRU_get key c)) =
     (case Map_get (map_lru c) key of
        None \<Rightarrow> map_lru c
      | Some v \<Rightarrow> Map_delete key (map_lru c) @ [(key, v)])"
  by (simp add: LRU_get_def Map_set_fresh Map_delete_absent split: option.splits)

lemma LRU_get_max [simp]: "max_lru (snd (LRU_get key c)) = max_lru c"
  by (simp add: LRU_get_def split: option.splits)

lemma LRU_set_max [simp]: "max_lru (LRU_set key val c) = max_lru c"
  by (simp add: LRU_set_def Let_def)

lemma lru_step_max [simp]: "max_lru (lru_step c op) = max_lru c"
  by (cases op) simp_all

lemma lru_run_max [simp]: "max_lru (lru_run ops c) = max_lru c"
  unfolding lru_run_def by (induction ops arbitrary: c) simp_all

lemma lru_run_snoc: "lru_run (ops @ [op]) c = lru_step (lru_run ops c) op"
  by (simp add: lru_run_def)

lemma Map_keys_delete: "Map_keys (Map_delete k m) = filter (\<lambda>x. x \<noteq> k) (Map_keys m)"
  by (induction m) (simp_all add: Map_keys_def Map_delete_def)

lemma Map_keys_append [simp]: "Map_keys (m @ m') = Map_keys m @ Map_keys m'"
  by (simp add: Map_keys_def)

lemma Map_delete_first:
  "distinct (Map_keys m) \<Longrightarrow> m \<noteq> [] \<Longrightarrow> Map_delete (fst (hd m)) m = tl m"
proof (cases m)
  case Nil
  assume "m \<noteq> []" with Nil show ?thesis by simp
next
  case (Cons e rest)
  assume "distinct (Map_keys m)"
  with Cons have "fst e \<notin> fst ` set rest" by (simp add: Map_keys_def)
  then have "Map_delete (fst e) rest = rest" by (rule Map_delete_id)
  with Cons show ?thesis by (simp add: Map_delete_def)
qed

lemma length_Map_delete_le: "length (Map_delete k m) \<le> length m"
  by (simp add: Map_delete_def)

lemma length_Map_delete_less:
  "k \<in> fst ` set m \<Longrightarrow> length (Map_delete k m) < length m"
proof -
  assume "k \<in> fst ` set m"
  then obtain e where "e \<in> set m" and "\<not> fst e \<noteq> k" by auto
  then show ?thesis unfolding Map_delete_def by (rule length_filter_less)
qed

lemma Map_get_last:
  "key \<notin> fst ` set xs \<Longrightarrow> Map_get (xs @ [(key, v)]) key = Some v"
  unfolding Map_get_def by (induction xs) auto

lemma LRU_get_last:
  assumes "map_lru c = xs @ [(key, v)]" and "key \<notin> fst ` set xs"
  shows "LRU_get key c = (Some v, c)"
proof -
  have "Map_delete key (xs @ [(key, v)]) = xs"
    using assms(2) by (simp add: Map_delete_def Map_delete_id [unfolded Map_delete_def])
  then have "Map_set key v (Map_delete key (map_lru c)) = map_lru c"
    using assms by (simp add: Map_set_fresh)
  then show ?thesis
    using assms by (simp add: LRU_get_def Map_get_last)
qed

lemma LRU_set_last:
  assumes "1 \<le> max_lru c"
  shows "\<exists>xs. map_lru (LRU_set key val c) = xs @ [(key, val)] \<and> key \<notin> fst ` set xs"
proof -
  let ?D = "Map_delete key (map_lru c)"
  let ?m2 = "?D @ [(key, val)]"
  have absent: "key \<notin> fst ` set ?D" by (rule Map_delete_absent)
  have now: "map_lru (LRU_set key val c) =
               (if int (length ?m2) > max_lru c then Map_delete (fst (hd ?m2)) ?m2 else ?m2)"
    using assms by (simp add: LRU_set_entries Let_def)
  show ?thesis
  proof (cases "int (length ?m2) > max_lru c")
    case False
    with now absent show ?thesis by auto
  next
    case True
    with assms have ne: "?D \<noteq> []" by auto
    then have other: "fst (hd ?D) \<noteq> key" using absent by (cases ?D) auto
    have "Map_delete (fst (hd ?m2)) ?m2 = Map_delete (fst (hd ?D)) ?D @ [(key, val)]"
      using ne other by (simp add: Map_delete_def)
    moreover have "key \<notin> fst ` set (Map_delete (fst (hd ?D)) ?D)"
      using absent by (auto simp: Map_delete_def)
    ultimately show ?thesis using now True by auto
  qed
qed

lemma LRU_set_keeps_promoted:
  assumes cap: "2 \<le> max_lru c" and last: "map_lru c = xs @ [(key, v)]"
    and fresh: "key \<notin> fst ` set xs"
  shows "Map_has (map_lru (LRU_set key' val' c)) key"
proof (cases "key' = key")
  case True
  from cap have "1 \<le> max_lru c" by simp
  from LRU_set_last [OF this, of key' val'] True show ?thesis
    by (auto simp: Map_has_def)
next
  case False
  let ?D = "Map_delete key' xs"
  let ?m2 = "?D @ [(key, v), (key', val')]"
  have del: "Map_delete key' (map_lru c) @ [(key', val')] = ?m2"
    using False last by (simp add: Map_delete_def)
  have now: "map_lru (LRU_set key' val' c) =
               (if int (length ?m2) > max_lru c then Map_delete (fst (hd ?m2)) ?m2 else ?m2)"
    using cap by (simp add: LRU_set_entries Let_def del del: append.simps)
  show ?thesis
  proof (cases "int (length ?m2) > max_lru c")
    case False
    with now show ?thesis by (simp add: Map_has_def)
  next
    case True
    with cap have ne: "?D \<noteq> []" by auto
    have "hd ?D \<in> set xs" using ne hd_in_set [OF ne] by (auto simp: Map_delete_def)
    with fresh have "fst (hd ?D) \<noteq> key" by auto
    then show ?thesis using now True ne
      by (auto simp: Map_has_def Map_delete_def image_iff)
  qed
qed

section \<open>A disabled cache\<close>

lemma disabled_step:
  "max_lru c \<le> 0 \<Longrightarrow> map_lru c = [] \<Longrightarrow> lru_step c op = c"
  by (cases op) (simp_all add: LRU_get_def LRU_set_def Map_get_def)

lemma disabled_run:
  "max_lru c \<le> 0 \<Longrightarrow> map_lru c = [] \<Longrightarrow> lru_run ops c = c"
  unfolding lru_run_def
  by (induction ops) (simp_all add: disabled_step)

text \<open>
  Claim C8. On a cache built with a capacity of zero or less, \<^verbatim>\<open>set\<close> changes nothing,
  and after any history of \<^verbatim>\<open>set\<close> and \<^verbatim>\<open>get\<close> calls the cache is still the empty one
  it was built as, so that every \<^verbatim>\<open>get\<close> returns absent.
\<close>

theorem C8_disabled_cache_stores_nothing:
  fixes c :: "('k, 'v) LRU" and ops :: "('k, 'v) lru_op list"
  assumes "mx \<le> 0" and "max_lru c = mx"
  shows "LRU_set key val c = c
       \<and> lru_run ops (LRU_new mx) = LRU_new mx
       \<and> fst (LRU_get key' (lru_run ops (LRU_new mx))) = None"
proof -
  have stay: "LRU_set key val c = c"
    using assms by (simp add: LRU_set_def)
  have new: "max_lru (LRU_new mx :: ('k, 'v) LRU) \<le> 0" "map_lru (LRU_new mx :: ('k, 'v) LRU) = []"
    using assms by (simp_all add: LRU_new_def)
  have run: "lru_run ops (LRU_new mx) = LRU_new mx"
    by (rule disabled_run [OF new])
  have "fst (LRU_get key' (lru_run ops (LRU_new mx))) = None"
    by (simp add: run) (simp add: LRU_new_def LRU_get_def Map_get_def)
  with stay run show ?thesis by simp
qed

theorem C8_disabled_cache_witness:
  "(0::int) \<le> 0
   \<and> LRU_set (1::nat) True (LRU_new 0) = LRU_new 0
   \<and> lru_run [Set 1 True, Get 1, Set 2 False] (LRU_new 0) = (LRU_new 0 :: (nat, bool) LRU)
   \<and> fst (LRU_get 1 (lru_run [Set 1 True, Get 1, Set 2 False] (LRU_new 0 :: (nat, bool) LRU))) = None"
proof -
  have le: "(0::int) \<le> 0" by simp
  have cap: "max_lru (LRU_new 0 :: (nat, bool) LRU) = 0" by (simp add: LRU_new_def)
  show ?thesis
    using le C8_disabled_cache_stores_nothing
               [OF le cap, of 1 True "[Set 1 True, Get 1, Set 2 False]" 1]
    by (rule conjI)
qed

section \<open>Recency order and capacity of an enabled cache\<close>

lemma last_use_snoc:
  "last_use (ops @ [op]) k = (if touches op k then Suc (length ops) else last_use ops k)"
  by (simp add: last_use_def)

lemma last_use_le: "last_use ops k \<le> length ops"
  by (simp add: last_use_def)

lemma takeWhile_stops:
  "\<not> P y \<Longrightarrow> length (takeWhile P (xs @ y # ys)) \<le> length xs"
  by (induction xs) simp_all

lemma last_use_after: "touches op k \<Longrightarrow> length pre < last_use (pre @ op # post) k"
proof -
  assume "touches op k"
  then have "length (takeWhile (\<lambda>op. \<not> touches op k) (rev post @ op # rev pre)) \<le> length (rev post)"
    by (intro takeWhile_stops) simp
  then show ?thesis by (simp add: last_use_def)
qed

lemma by_last_use_first:
  assumes "by_last_use ops m" and "k \<in> fst ` set m"
  shows "last_use ops (fst (hd m)) \<le> last_use ops k"
  using assms unfolding by_last_use_def Map_keys_def by (cases m) auto

lemma sorted_wrt_less_distinct:
  fixes f :: "'a \<Rightarrow> nat"
  shows "sorted_wrt (\<lambda>a b. f a < f b) xs \<Longrightarrow> distinct xs"
  by (induction xs) auto

lemma by_last_use_distinct: "by_last_use ops m \<Longrightarrow> distinct (Map_keys m)"
  unfolding by_last_use_def by (rule sorted_wrt_less_distinct)

lemma by_last_use_untouched:
  assumes "by_last_use ops m" and "\<forall>k \<in> set (Map_keys m). \<not> touches op k"
  shows "by_last_use (ops @ [op]) m"
proof -
  have "\<And>a b. a \<in> set (Map_keys m) \<Longrightarrow> b \<in> set (Map_keys m) \<Longrightarrow>
          last_use ops a < last_use ops b \<Longrightarrow> last_use (ops @ [op]) a < last_use (ops @ [op]) b"
    using assms(2) by (simp add: last_use_snoc)
  with assms(1) show ?thesis
    unfolding by_last_use_def by (rule sorted_wrt_mono_rel [rotated]) 
qed

lemma by_last_use_promote:
  assumes "by_last_use ops m" and "touches op key" and "\<forall>k. k \<noteq> key \<longrightarrow> \<not> touches op k"
  shows "by_last_use (ops @ [op]) (Map_delete key m @ [(key, v)])"
proof -
  let ?ks = "filter (\<lambda>x. x \<noteq> key) (Map_keys m)"
  have sorted: "sorted_wrt (\<lambda>a b. last_use ops a < last_use ops b) ?ks"
    using assms(1) unfolding by_last_use_def by (rule sorted_wrt_filter)
  have "sorted_wrt (\<lambda>a b. last_use (ops @ [op]) a < last_use (ops @ [op]) b) ?ks"
  proof (rule sorted_wrt_mono_rel [OF _ sorted])
    fix a b assume "a \<in> set ?ks" "b \<in> set ?ks" "last_use ops a < last_use ops b"
    then show "last_use (ops @ [op]) a < last_use (ops @ [op]) b"
      using assms(3) by (simp add: last_use_snoc)
  qed
  moreover have "\<forall>a \<in> set ?ks. last_use (ops @ [op]) a < last_use (ops @ [op]) key"
    using assms(2,3) last_use_le [of ops] by (auto simp: last_use_snoc less_Suc_eq_le)
  ultimately show ?thesis
    unfolding by_last_use_def
    by (simp add: Map_keys_delete sorted_wrt_append) (simp add: Map_keys_def)
qed

lemma by_last_use_tl: "by_last_use ops m \<Longrightarrow> by_last_use ops (tl m)"
  unfolding by_last_use_def Map_keys_def by (cases m) simp_all

text \<open>The invariant of a cache with a positive capacity, along any history.\<close>

lemma lru_invariant:
  fixes ops :: "('k, 'v) lru_op list"
  assumes pos: "0 < mx"
  shows "by_last_use ops (map_lru (lru_run ops (LRU_new mx :: ('k, 'v) LRU)))
       \<and> int (length (map_lru (lru_run ops (LRU_new mx :: ('k, 'v) LRU)))) \<le> mx"
proof (induction ops rule: rev_induct)
  case Nil
  show ?case using pos by (simp add: lru_run_def LRU_new_def by_last_use_def Map_keys_def)
next
  case (snoc op ops)
  let ?c = "lru_run ops (LRU_new mx :: ('k, 'v) LRU)"
  let ?m = "map_lru ?c"
  have srt: "by_last_use ops ?m" and len: "int (length ?m) \<le> mx"
    using snoc.IH by simp_all
  have cap: "max_lru ?c = mx" by (simp add: LRU_new_def)
  show ?case
  proof (cases op)
    case (Get key)
    show ?thesis
    proof (cases "Map_get ?m key")
      case None
      then have absent: "key \<notin> set (Map_keys ?m)"
        by (simp add: Map_get_None_iff Map_keys_def)
      have same: "map_lru (lru_run (ops @ [op]) (LRU_new mx :: ('k, 'v) LRU)) = ?m"
        using None Get by (simp add: lru_run_snoc LRU_get_entries)
      have "by_last_use (ops @ [op]) ?m"
        using srt absent Get by (intro by_last_use_untouched) auto
      with same len show ?thesis by simp
    next
      case (Some v)
      then have present: "key \<in> fst ` set ?m"
        using Map_get_None_iff [of ?m key] by auto
      have now: "map_lru (lru_run (ops @ [op]) (LRU_new mx :: ('k, 'v) LRU)) = Map_delete key ?m @ [(key, v)]"
        using Some Get by (simp add: lru_run_snoc LRU_get_entries)
      have "by_last_use (ops @ [op]) (Map_delete key ?m @ [(key, v)])"
        using srt Get by (intro by_last_use_promote) auto
      moreover have "int (length (Map_delete key ?m @ [(key, v)])) \<le> mx"
        using length_Map_delete_less [OF present] len by simp
      ultimately show ?thesis using now by simp
    qed
  next
    case (Set key val)
    let ?m2 = "Map_delete key ?m @ [(key, val)]"
    have srt2: "by_last_use (ops @ [op]) ?m2"
      using srt Set by (intro by_last_use_promote) auto
    have len2: "int (length ?m2) \<le> mx + 1"
      using length_Map_delete_le [of key ?m] len by simp
    have now: "map_lru (lru_run (ops @ [op]) (LRU_new mx :: ('k, 'v) LRU)) =
                 (if int (length ?m2) > mx then Map_delete (fst (hd ?m2)) ?m2 else ?m2)"
      using Set pos cap by (simp add: lru_run_snoc LRU_set_entries Let_def)
    show ?thesis
    proof (cases "int (length ?m2) > mx")
      case False
      with now srt2 show ?thesis by simp
    next
      case True
      have tl: "Map_delete (fst (hd ?m2)) ?m2 = tl ?m2"
        by (rule Map_delete_first [OF by_last_use_distinct [OF srt2]]) simp
      have "by_last_use (ops @ [op]) (tl ?m2)"
        using srt2 by (rule by_last_use_tl)
      moreover have "int (length (tl ?m2)) \<le> mx"
        using len2 by simp
      ultimately show ?thesis using now True tl by simp
    qed
  qed
qed

text \<open>
  Claim C1, as amended. On a cache built with a capacity of at least 1, after any history
  of \<^verbatim>\<open>get\<close> and \<^verbatim>\<open>set\<close> calls: the number of entries is at most the capacity; a
  \<^verbatim>\<open>set\<close> of a new key on a full cache removes exactly the first entry, whose key has
  the oldest last use of all stored keys, and any other \<^verbatim>\<open>set\<close> removes nothing but the
  old entry of its own key; a \<^verbatim>\<open>get\<close> of a stored key returns its value and moves the
  entry to the most recent end, and when the capacity is at least 2 the key is still
  stored after the \<^verbatim>\<open>set\<close> that directly follows, whatever it sets. Later on, an
  overflowing \<^verbatim>\<open>set\<close> does not evict a key that a \<^verbatim>\<open>get\<close> has named as long as some
  other stored key has had no use since that \<^verbatim>\<open>get\<close>.
\<close>

theorem C1_lru_capacity_and_eviction:
  fixes ops :: "('k, 'v) lru_op list"
  assumes "1 \<le> mx"
  shows "let c = lru_run ops (LRU_new mx); m = map_lru c in
      int (Map_size m) \<le> mx
    \<and> (if \<not> Map_has m key \<and> int (Map_size m) = mx
       then m \<noteq> []
          \<and> map_lru (LRU_set key val c) = tl m @ [(key, val)]
          \<and> (\<forall>k \<in> set (Map_keys (tl m)). last_use ops (fst (hd m)) < last_use ops k)
       else map_lru (LRU_set key val c) = Map_delete key m @ [(key, val)])
    \<and> (Map_get m key' = Some v \<longrightarrow>
          fst (LRU_get key' c) = Some v
        \<and> map_lru (snd (LRU_get key' c)) = Map_delete key' m @ [(key', v)]
        \<and> (2 \<le> mx \<longrightarrow> Map_has (map_lru (LRU_set key'' val'' (snd (LRU_get key' c)))) key'))
    \<and> (ops = pre @ Get k # post
        \<and> \<not> Map_has m key \<and> int (Map_size m) = mx
        \<and> Map_has m k' \<and> last_use ops k' \<le> length pre
        \<longrightarrow> fst (hd m) \<noteq> k \<and> (Map_has m k \<longrightarrow> Map_has (map_lru (LRU_set key val c)) k))"
proof -
  let ?c = "lru_run ops (LRU_new mx :: ('k, 'v) LRU)"
  let ?m = "map_lru ?c"
  from assms have pos: "0 < mx" by simp
  have cap: "max_lru ?c = mx" by (simp add: LRU_new_def)
  have srt: "by_last_use ops ?m" and len: "int (length ?m) \<le> mx"
    using lru_invariant [OF pos, of ops] by simp_all
  have set_now: "map_lru (LRU_set key val ?c) =
      (if int (length (Map_delete key ?m @ [(key, val)])) > mx
       then Map_delete (fst (hd (Map_delete key ?m @ [(key, val)]))) (Map_delete key ?m @ [(key, val)])
       else Map_delete key ?m @ [(key, val)])"
    using pos cap by (simp add: LRU_set_entries Let_def)
  have part2: "if \<not> Map_has ?m key \<and> int (Map_size ?m) = mx
       then ?m \<noteq> []
          \<and> map_lru (LRU_set key val ?c) = tl ?m @ [(key, val)]
          \<and> (\<forall>k \<in> set (Map_keys (tl ?m)). last_use ops (fst (hd ?m)) < last_use ops k)
       else map_lru (LRU_set key val ?c) = Map_delete key ?m @ [(key, val)]"
  proof (cases "\<not> Map_has ?m key \<and> int (Map_size ?m) = mx")
    case True
    then have absent: "key \<notin> fst ` set ?m" and full: "int (length ?m) = mx"
      by (simp_all add: Map_has_def Map_size_def)
    from full pos have ne: "?m \<noteq> []" by auto
    have del: "Map_delete key ?m = ?m" using absent by (rule Map_delete_id)
    have "distinct (Map_keys (?m @ [(key, val)]))"
      using by_last_use_distinct [OF srt] absent by (simp add: Map_keys_def)
    then have "Map_delete (fst (hd (?m @ [(key, val)]))) (?m @ [(key, val)]) = tl (?m @ [(key, val)])"
      by (rule Map_delete_first) simp
    then have evict: "map_lru (LRU_set key val ?c) = tl ?m @ [(key, val)]"
      using set_now full ne by (simp add: del)
    have "\<forall>k \<in> set (Map_keys (tl ?m)). last_use ops (fst (hd ?m)) < last_use ops k"
      using srt ne unfolding by_last_use_def Map_keys_def by (cases ?m) auto
    with True ne evict show ?thesis by simp
  next
    case False
    have "int (length (Map_delete key ?m @ [(key, val)])) \<le> mx"
    proof (cases "Map_has ?m key")
      case True
      then have "length (Map_delete key ?m) < length ?m"
        unfolding Map_has_def by (rule length_Map_delete_less)
      with len show ?thesis by simp
    next
      case absent: False
      with False have "int (length ?m) \<noteq> mx" by (simp add: Map_size_def)
      with len length_Map_delete_le [of key ?m] show ?thesis by simp
    qed
    with set_now have "map_lru (LRU_set key val ?c) = Map_delete key ?m @ [(key, val)]" by simp
    then show ?thesis unfolding if_not_P [OF False] .
  qed
  have part3: "Map_get ?m key' = Some v \<longrightarrow>
          fst (LRU_get key' ?c) = Some v
        \<and> map_lru (snd (LRU_get key' ?c)) = Map_delete key' ?m @ [(key', v)]
        \<and> (2 \<le> mx \<longrightarrow> Map_has (map_lru (LRU_set key'' val'' (snd (LRU_get key' ?c)))) key')"
  proof
    assume hit: "Map_get ?m key' = Some v"
    have got: "fst (LRU_get key' ?c) = Some v" using hit by (simp add: LRU_get_def)
    have moved: "map_lru (snd (LRU_get key' ?c)) = Map_delete key' ?m @ [(key', v)]"
      using hit by (simp add: LRU_get_entries)
    have "2 \<le> mx \<longrightarrow> Map_has (map_lru (LRU_set key'' val'' (snd (LRU_get key' ?c)))) key'"
    proof
      assume "2 \<le> mx"
      then have "2 \<le> max_lru (snd (LRU_get key' ?c))" using cap by simp
      then show "Map_has (map_lru (LRU_set key'' val'' (snd (LRU_get key' ?c)))) key'"
        using moved by (rule LRU_set_keeps_promoted) (rule Map_delete_absent)
    qed
    with got moved show "fst (LRU_get key' ?c) = Some v
        \<and> map_lru (snd (LRU_get key' ?c)) = Map_delete key' ?m @ [(key', v)]
        \<and> (2 \<le> mx \<longrightarrow> Map_has (map_lru (LRU_set key'' val'' (snd (LRU_get key' ?c)))) key')"
      by simp
  qed
  have part4: "ops = pre @ Get k # post
        \<and> \<not> Map_has ?m key \<and> int (Map_size ?m) = mx
        \<and> Map_has ?m k' \<and> last_use ops k' \<le> length pre
        \<longrightarrow> fst (hd ?m) \<noteq> k \<and> (Map_has ?m k \<longrightarrow> Map_has (map_lru (LRU_set key val ?c)) k)"
  proof (intro impI, elim conjE)
    assume split: "ops = pre @ Get k # post"
      and absent: "\<not> Map_has ?m key" and full: "int (Map_size ?m) = mx"
      and other: "Map_has ?m k'" and old: "last_use ops k' \<le> length pre"
    have "length pre < last_use (pre @ Get k # post) k"
      by (rule last_use_after) simp
    then have read: "length pre < last_use ops k" by (simp only: split)
    have "last_use ops (fst (hd ?m)) \<le> last_use ops k'"
      using srt other unfolding Map_has_def by (rule by_last_use_first)
    with old read have first: "fst (hd ?m) \<noteq> k" by auto
    from part2 absent full
    have ne: "?m \<noteq> []" and evict: "map_lru (LRU_set key val ?c) = tl ?m @ [(key, val)]"
      by simp_all
    have "Map_has (map_lru (LRU_set key val ?c)) k" if "Map_has ?m k"
    proof -
      from that obtain e where e: "e \<in> set ?m" "fst e = k" by (auto simp: Map_has_def)
      with first ne have "e \<in> set (tl ?m)" by (cases ?m) auto
      with e show ?thesis by (auto simp: evict Map_has_def)
    qed
    with first show "fst (hd ?m) \<noteq> k \<and> (Map_has ?m k \<longrightarrow> Map_has (map_lru (LRU_set key val ?c)) k)"
      by simp
  qed
  from len part2 part3 part4 show ?thesis
    unfolding Let_def Map_size_def [of ?m] by (intro conjI)
qed

text \<open>The definitions that evaluate a history on a given cache.\<close>

lemmas lru_eval = lru_run_def LRU_new_def LRU_set_def LRU_get_def Map_get_def Map_has_def
  Map_delete_def Map_size_def Map_keys_def Let_def

theorem C1_lru_witness:
  "(1::int) \<le> 2
   \<and> map_lru (lru_run [Set (1::nat) False, Set 2 True, Get 1] (LRU_new 2)) = [(2, True), (1, False)]
   \<and> int (Map_size (map_lru (lru_run [Set (1::nat) False, Set 2 True, Get 1] (LRU_new 2)))) \<le> 2
   \<and> map_lru (LRU_set 3 True (lru_run [Set (1::nat) False, Set 2 True, Get 1] (LRU_new 2)))
       = [(1, False), (3, True)]
   \<and> last_use [Set (1::nat) False, Set 2 True, Get 1] 2 < last_use [Set (1::nat) False, Set 2 True, Get 1] 1
   \<and> fst (LRU_get 2 (lru_run [Set (1::nat) False, Set 2 True, Get 1] (LRU_new 2))) = Some True
   \<and> Map_has (map_lru (LRU_set 3 False
                 (snd (LRU_get 2 (lru_run [Set (1::nat) False, Set 2 True, Get 1] (LRU_new 2)))))) 2
   \<and> (1::int) \<le> 3
   \<and> map_lru (lru_run [Set (1::nat) False, Set 2 True, Set 3 True, Get 1, Get 2] (LRU_new 3))
       = [(3, True), (1, False), (2, True)]
   \<and> last_use [Set (1::nat) False, Set 2 True, Set 3 True, Get 1, Get 2] 3
       \<le> length [Set (1::nat) False, Set 2 True, Set 3 True]
   \<and> Map_has (map_lru (LRU_set 4 True
                 (lru_run [Set (1::nat) False, Set 2 True, Set 3 True, Get 1, Get 2] (LRU_new 3)))) 1"
proof -
  let ?ops = "[Set (1::nat) False, Set 2 True, Get 1]"
  have le: "(1::int) \<le> 2" by simp
  have m: "map_lru (lru_run ?ops (LRU_new 2)) = [(2, True), (1, False)]"
    by (simp add: lru_eval)
  have absent: "\<not> Map_has [(2::nat, True), (1, False)] 3" and full: "Map_size [(2::nat, True), (1, False)] = 2"
    and hit: "Map_get [(2::nat, True), (1, False)] 2 = Some True"
    by (simp_all add: Map_has_def Map_size_def Map_get_def)
  note inst = C1_lru_capacity_and_eviction [OF le, of ?ops 3 True 2 True 3 False, unfolded Let_def m]
  from inst have bound: "int (Map_size [(2::nat, True), (1, False)]) \<le> 2" by (rule conjunct1)
  from inst absent full hit
  have rest: "[(2::nat, True), (1, False)] \<noteq> []
          \<and> map_lru (LRU_set 3 True (lru_run ?ops (LRU_new 2))) = tl [(2, True), (1, False)] @ [(3, True)]
          \<and> (\<forall>k \<in> set (Map_keys (tl [(2::nat, True), (1, False)])).
                last_use ?ops (fst (hd [(2::nat, True), (1, False)])) < last_use ?ops k)"
    and promoted: "fst (LRU_get 2 (lru_run ?ops (LRU_new 2))) = Some True
        \<and> map_lru (snd (LRU_get 2 (lru_run ?ops (LRU_new 2)))) = Map_delete 2 [(2, True), (1, False)] @ [(2, True)]
        \<and> ((2::int) \<le> 2 \<longrightarrow> Map_has (map_lru (LRU_set 3 False (snd (LRU_get 2 (lru_run ?ops (LRU_new 2)))))) 2)"
    by simp_all
  from rest have order: "last_use ?ops 2 < last_use ?ops 1" by (simp add: Map_keys_def)
  let ?pre = "[Set (1::nat) False, Set 2 True, Set 3 True]"
  let ?ops3 = "[Set (1::nat) False, Set 2 True, Set 3 True, Get 1, Get 2]"
  let ?m3 = "[(3::nat, True), (1, False), (2, True)]"
  have le3: "(1::int) \<le> 3" by simp
  have m3: "map_lru (lru_run ?ops3 (LRU_new 3)) = ?m3"
    by (simp add: lru_eval)
  have split: "?ops3 = ?pre @ Get 1 # [Get 2]" by simp
  have absent3: "\<not> Map_has ?m3 4" and full3: "int (Map_size ?m3) = 3"
    and other: "Map_has ?m3 3" and stored: "Map_has ?m3 1"
    by (simp_all add: Map_has_def Map_size_def)
  have old: "last_use ?ops3 3 \<le> length ?pre" by (simp add: last_use_def)
  note later = C1_lru_capacity_and_eviction
                 [OF le3, of ?ops3 4 True _ _ _ _ ?pre 1 "[Get 2]" 3, unfolded Let_def m3,
                  THEN conjunct2, THEN conjunct2, THEN conjunct2]
  from later split absent3 full3 other old stored
  have kept: "Map_has (map_lru (LRU_set 4 True (lru_run ?ops3 (LRU_new 3)))) 1"
    by blast
  from le m bound rest promoted order le3 m3 old kept show ?thesis by (simp add: m)
qed

text \<open>
  The claim as stated, that the key read is not the one evicted by the next overflowing
  \<^verbatim>\<open>set\<close>, fails when every other stored key is used after the read. With a capacity
  of 1 the key read is the only entry, and the next \<^verbatim>\<open>set\<close> of another key evicts it.
  With a capacity of 2, after \<^verbatim>\<open>set(1)\<close>, \<^verbatim>\<open>get(1)\<close> and \<^verbatim>\<open>set(2)\<close>, which does not
  overflow, \<^verbatim>\<open>set(3)\<close> is the next overflowing one and evicts key 1.
\<close>

theorem C1_read_key_evicted_counterexample:
  "(1::int) \<le> 1
   \<and> Map_get (map_lru (lru_run [Set (1::nat) False] (LRU_new 1))) 1 = Some False
   \<and> map_lru (snd (LRU_get 1 (lru_run [Set (1::nat) False] (LRU_new 1)))) = [(1, False)]
   \<and> map_lru (LRU_set 2 True (snd (LRU_get 1 (lru_run [Set (1::nat) False] (LRU_new 1))))) = [(2, True)]
   \<and> \<not> Map_has (map_lru (LRU_set 2 True (snd (LRU_get 1 (lru_run [Set (1::nat) False] (LRU_new 1)))))) 1
   \<and> (1::int) \<le> 2
   \<and> Map_get (map_lru (lru_run [Set (1::nat) False] (LRU_new 2))) 1 = Some False
   \<and> map_lru (lru_run [Set (1::nat) False, Get 1, Set 2 True] (LRU_new 2)) = [(1, False), (2, True)]
   \<and> map_lru (LRU_set 3 True (lru_run [Set (1::nat) False, Get 1, Set 2 True] (LRU_new 2)))
       = [(2, True), (3, True)]
   \<and> \<not> Map_has (map_lru (LRU_set 3 True (lru_run [Set (1::nat) False, Get 1, Set 2 True] (LRU_new 2)))) 1"
  by (simp add: lru_eval)

section \<open>Facts about strings and numbers\<close>

lemma trim_clean:
  assumes "s \<noteq> []" and "\<not> isWhiteSpace (hd s)" and "\<not> isWhiteSpace (last s)"
  shows "trim s = s"
proof -
  have a: "dropWhile isWhiteSpace s = s" using assms(1,2) by (cases s) simp_all
  have "rev s \<noteq> []" "\<not> isWhiteSpace (hd (rev s))" using assms(1,3) by (simp_all add: hd_rev)
  then have "dropWhile isWhiteSpace (rev s) = rev s" by (cases "rev s") simp_all
  with a show ?thesis by (simp add: trim_def)
qed

lemma trim_ascii_hi: "trim (ascii ''hi'') = ascii ''hi''"
  by (simp add: trim_def ascii_def isWhiteSpace_def)

lemma trim_morning: "trim (ascii ''good morning to you'') = ascii ''good morning to you''"
  by (rule trim_clean) (simp_all add: ascii_def isWhiteSpace_def)

lemma normalize_morning:
  "normalize_input default_config (ascii ''good morning to you'') = ascii ''good morning to you''"
  by (simp add: normalize_input_def trim_morning slice0_def default_config_def) (simp add: ascii_def)

lemma trim_replicate_a: "0 < n \<Longrightarrow> trim (replicate n 97) = replicate n 97"
  by (rule trim_clean) (simp_all add: isWhiteSpace_def)

lemma slice0_take: "0 \<le> n \<Longrightarrow> slice0 n s = take (nat n) s"
  by (simp add: slice0_def Let_def min_def)

lemma in_topN_range: "1 \<le> n \<Longrightarrow> n \<le> 10 \<Longrightarrow> n \<in> set topN_range"
  unfolding topN_range_def by simp arith

lemma String_int_range:
  "map String_int topN_range = [[49], [50], [51], [52], [53], [54], [55], [56], [57], [49, 48]]"
  by (simp add: topN_range_def String_int_def digits.simps)

lemma String_int_range_inj:
  assumes "1 \<le> n1" "n1 \<le> 10" "1 \<le> n2" "n2 \<le> 10" "n1 \<noteq> n2"
  shows "String_int n1 \<noteq> String_int n2"
proof -
  have "distinct (map String_int topN_range)"
    unfolding String_int_range by simp
  then have "inj_on String_int (set topN_range)"
    by (simp only: distinct_map)
  then show ?thesis
    using in_topN_range [OF assms(1,2)] in_topN_range [OF assms(3,4)] assms(5)
    by (auto dest: inj_onD)
qed

section \<open>Facts about the handler\<close>

lemma ready_facts:
  "identifier_gw (ready cfg) = Some stub_detector" "map_lru (cache (ready cfg)) = []"
  "max_lru (cache (ready cfg)) = CACHE_MAX cfg" "trace (ready cfg) = []"
  by (simp_all add: ready_def initial_def LRU_new_def)

lemma lookup_or_detect_identifier [simp]:
  "identifier_gw (snd (lookup_or_detect ident topN text key s)) = identifier_gw s"
  by (simp add: lookup_or_detect_def cache_get_def cache_set_def detect_def split_beta Let_def
           split: option.splits)

lemma lookup_or_detect_status [simp]:
  "status (fst (lookup_or_detect ident topN text key s)) = 200"
  by (simp add: lookup_or_detect_def cache_get_def split_beta Let_def split: option.splits)

lemma classify_long:
  assumes "identifier_gw s = Some ident" and "normalize_input cfg (body_text b) \<noteq> []"
    and "MIN_LEN cfg \<le> int (length (normalize_input cfg (body_text b)))"
  shows "classify cfg b s =
           lookup_or_detect ident (topN_of b) (normalize_input cfg (body_text b))
             (cache_key (topN_of b) (normalize_input cfg (body_text b))) s"
  using assms by (simp add: classify_def Let_def)

lemma classify_part000_long:
  assumes "identifier_gw s = Some ident" and "trim (body_text b) \<noteq> []"
    and "MIN_LEN cfg \<le> int (length (trim (body_text b)))"
  shows "classify_part000 cfg b s =
           lookup_or_detect ident (topN_of b) (trim (body_text b))
             (cache_key_part000 (topN_of b) (trim (body_text b))) s"
  using assms by (simp add: classify_part000_def Let_def)

lemma classify_empty:
  "identifier_gw s = Some ident \<Longrightarrow> normalize_input cfg (body_text b) = [] \<Longrightarrow>
   classify cfg b s = (Reply_error 400 ''Empty 'text'.'', s)"
  by (simp add: classify_def Let_def)

lemma classify_part000_empty:
  "identifier_gw s = Some ident \<Longrightarrow> trim (body_text b) = [] \<Longrightarrow>
   classify_part000 cfg b s = (Reply_error 400 ''Empty 'text'.'', s)"
  by (simp add: classify_part000_def Let_def)

text \<open>The answer to a short text in \<^verbatim>\<open>src/server.js\<close> and in \<^verbatim>\<open>src/unnamed/part_000\<close>.\<close>

lemma fast_fail_server:
  assumes "identifier_gw s = Some ident" and "normalize_input cfg (body_text b) \<noteq> []"
    and "0 < MIN_LEN cfg" and "int (length (normalize_input cfg (body_text b))) < MIN_LEN cfg"
  shows "classify cfg b s =
           (Reply_response \<lparr>input_len = length (normalize_input cfg (body_text b)),
                            cld3 = (if topN_of b = 1 then Single und else Ranked [])\<rparr>, s)"
  using assms by (simp add: classify_def Let_def)

lemma fast_fail_part000:
  assumes "identifier_gw s = Some ident" and "trim (body_text b) \<noteq> []"
    and "0 < MIN_LEN cfg" and "int (length (trim (body_text b))) < MIN_LEN cfg"
  shows "classify_part000 cfg b s =
           (Reply_response \<lparr>input_len = length (trim (body_text b)), cld3 = Single und\<rparr>, s)"
  using assms by (simp add: classify_part000_def Let_def)

lemma lookup_or_detect_result:
  assumes "1 \<le> max_lru (cache s)"
  shows "\<exists>out xs. fst (lookup_or_detect ident topN text key s) = Reply_response out
           \<and> map_lru (cache (snd (lookup_or_detect ident topN text key s))) = xs @ [(key, out)]
           \<and> key \<notin> fst ` set xs"
proof (cases "Map_get (map_lru (cache s)) key")
  case (Some hit)
  then have "fst (lookup_or_detect ident topN text key s) = Reply_response hit"
    and "map_lru (cache (snd (lookup_or_detect ident topN text key s)))
           = Map_delete key (map_lru (cache s)) @ [(key, hit)]"
    by (simp_all add: lookup_or_detect_def cache_get_def LRU_get_def Map_set_fresh Map_delete_absent)
  then show ?thesis using Map_delete_absent [of key "map_lru (cache s)"] by blast
next
  case None
  let ?s1 = "s\<lparr>trace := trace s @ [Cache_get key]\<rparr>"
  let ?out = "\<lparr>input_len = length text, cld3 = fst (detect ident topN text ?s1)\<rparr>"
  have miss: "cache_get key s = (None, ?s1)"
    using None by (simp add: cache_get_def LRU_get_def)
  have det: "cache (snd (detect ident topN text ?s1)) = cache s"
    by (simp add: detect_def)
  have "fst (lookup_or_detect ident topN text key s) = Reply_response ?out"
    and "cache (snd (lookup_or_detect ident topN text key s)) = LRU_set key ?out (cache s)"
    using det by (simp_all add: lookup_or_detect_def miss cache_set_def split_beta Let_def)
  then show ?thesis using LRU_set_last [OF assms, of key ?out] by auto
qed

lemma lookup_or_detect_again:
  assumes "1 \<le> max_lru (cache s)"
  shows "lookup_or_detect ident' topN' text' key (snd (lookup_or_detect ident topN text key s))
         = (fst (lookup_or_detect ident topN text key s),
            (snd (lookup_or_detect ident topN text key s))
              \<lparr>trace := trace (snd (lookup_or_detect ident topN text key s)) @ [Cache_get key]\<rparr>)"
proof -
  let ?s1 = "snd (lookup_or_detect ident topN text key s)"
  from lookup_or_detect_result [OF assms, of ident topN "text" key]
  obtain out xs where r: "fst (lookup_or_detect ident topN text key s) = Reply_response out"
    and m: "map_lru (cache ?s1) = xs @ [(key, out)]" and fresh: "key \<notin> fst ` set xs"
    by blast
  have "LRU_get key (cache ?s1) = (Some out, cache ?s1)"
    using m fresh by (rule LRU_get_last)
  then show ?thesis
    by (simp add: lookup_or_detect_def [of ident' topN' text' key ?s1] cache_get_def r)
qed

lemma lookup_or_detect_fresh:
  assumes "lookup_or_detect ident topN text key s = (Reply_response out, s')"
    and "trace s' \<noteq> trace s @ [Cache_get key]"
  shows "input_len out = length text"
  using assms
  by (auto simp: lookup_or_detect_def cache_get_def cache_set_def detect_def split_beta Let_def
           split: option.splits if_splits)

lemma lookup_or_detect_inputs:
  assumes "e \<in> set (drop (length (trace s)) (trace (snd (lookup_or_detect ident topN text key s))))"
    and "detector_input e = Some t"
  shows "t = text"
  using assms
  by (auto simp: lookup_or_detect_def cache_get_def cache_set_def detect_def split_beta Let_def
           split: option.splits if_splits)

lemma lookup_or_detect_empty_cache:
  assumes "map_lru (cache s) = []" and "0 < max_lru (cache s)"
  shows "lookup_or_detect ident 1 t k s =
          (Reply_response \<lparr>input_len = length t, cld3 = Single (findLanguage ident (trace s @ [Cache_get k]) t)\<rparr>,
           s\<lparr>cache := (cache s)\<lparr>map_lru :=
                  [(k, \<lparr>input_len = length t, cld3 = Single (findLanguage ident (trace s @ [Cache_get k]) t)\<rparr>)]\<rparr>,
              trace := trace s @ [Cache_get k, Find_language t,
                  Cache_set k \<lparr>input_len = length t, cld3 = Single (findLanguage ident (trace s @ [Cache_get k]) t)\<rparr>]\<rparr>)"
  using assms
  by (simp add: lookup_or_detect_def cache_get_def cache_set_def detect_def LRU_get_def LRU_set_def
        Map_get_def Map_has_def Map_size_def Let_def)

lemma detector_inputs_append [simp]:
  "detector_inputs (tr @ tr') = detector_inputs tr @ detector_inputs tr'"
  by (induction tr) (simp_all split: option.splits)

lemma detect_inputs:
  "detector_inputs (trace (snd (detect ident topN t s))) = detector_inputs (trace s) @ [t]"
  by (simp add: detect_def)

lemma lookup_or_detect_miss:
  assumes "map_lru (cache s) = []"
  shows "fst (lookup_or_detect ident topN t k s)
           = Reply_response \<lparr>input_len = length t,
               cld3 = fst (detect ident topN t (s\<lparr>trace := trace s @ [Cache_get k]\<rparr>))\<rparr>"
    and "detector_inputs (trace (snd (lookup_or_detect ident topN t k s))) = detector_inputs (trace s) @ [t]"
  using assms
  by (simp_all add: lookup_or_detect_def cache_get_def cache_set_def LRU_get_def Map_get_def
        split_beta Let_def detect_inputs)

section \<open>Requests before the detector is ready\<close>

text \<open>
  Claim C6. While \<^verbatim>\<open>identifier\<close> is \<^verbatim>\<open>null\<close>, the handler of either file answers 503
  with the error "Detector not ready yet." and leaves the state as it was: the cache is
  the same and the record of calls has no new entry, so the cache was neither read nor
  written and the detector was not invoked.
\<close>

theorem C6_not_ready_rejected:
  assumes "identifier_gw s = None"
  shows "classify cfg b s = (Reply_error 503 ''Detector not ready yet.'', s)
       \<and> classify_part000 cfg b s = (Reply_error 503 ''Detector not ready yet.'', s)"
  using assms by (simp add: classify_def classify_part000_def)

theorem C6_not_ready_witness:
  "identifier_gw (initial default_config) = None
   \<and> classify default_config \<lparr>body_text = ascii ''good morning to you'', body_topN = None\<rparr>
        (initial default_config)
       = (Reply_error 503 ''Detector not ready yet.'', initial default_config)
   \<and> classify_part000 default_config \<lparr>body_text = ascii ''good morning to you'', body_topN = None\<rparr>
        (initial default_config)
       = (Reply_error 503 ''Detector not ready yet.'', initial default_config)"
proof -
  have null: "identifier_gw (initial default_config) = None" by (simp add: initial_def)
  show ?thesis
    using null C6_not_ready_rejected [OF null] by (rule conjI)
qed

section \<open>Short texts\<close>

text \<open>
  Claim C7. When \<^verbatim>\<open>MIN_LEN\<close> is positive and the normalized text is shorter than it, the
  handler of either file leaves the state as it was: the entries of the cache and their
  order are the same, and the record of calls has no new entry.
\<close>

theorem C7_fast_fail_leaves_state:
  "(0 < MIN_LEN cfg \<and> int (length (normalize_input cfg (body_text b))) < MIN_LEN cfg
      \<longrightarrow> snd (classify cfg b s) = s)
   \<and> (0 < MIN_LEN cfg \<and> int (length (trim (body_text b))) < MIN_LEN cfg
      \<longrightarrow> snd (classify_part000 cfg b s) = s)"
  by (simp add: classify_def classify_part000_def Let_def split: option.splits)

theorem C7_fast_fail_witness:
  "0 < MIN_LEN default_config
   \<and> int (length (normalize_input default_config (ascii '' hi ''))) < MIN_LEN default_config
   \<and> int (length (trim (ascii '' hi ''))) < MIN_LEN default_config
   \<and> snd (classify default_config \<lparr>body_text = ascii '' hi '', body_topN = Some 3\<rparr> (warm default_config))
       = warm default_config
   \<and> snd (classify_part000 default_config \<lparr>body_text = ascii '' hi '', body_topN = Some 3\<rparr> (warm default_config))
       = warm default_config"
proof -
  let ?b = "\<lparr>body_text = ascii '' hi '', body_topN = Some 3\<rparr>"
  have pos: "0 < MIN_LEN default_config" by (simp add: default_config_def)
  have t: "trim (ascii '' hi '') = ascii ''hi''"
    by (simp add: trim_def ascii_def isWhiteSpace_def)
  have short: "int (length (normalize_input default_config (body_text ?b))) < MIN_LEN default_config"
    by (simp add: normalize_input_def slice0_def default_config_def t) (simp add: ascii_def)
  have short': "int (length (trim (body_text ?b))) < MIN_LEN default_config"
    by (simp add: default_config_def t) (simp add: ascii_def)
  note inst = C7_fast_fail_leaves_state [of default_config ?b "warm default_config"]
  from inst pos short have "snd (classify default_config ?b (warm default_config)) = warm default_config"
    by blast
  moreover from inst pos short'
  have "snd (classify_part000 default_config ?b (warm default_config)) = warm default_config"
    by blast
  ultimately show ?thesis using pos short short' by simp
qed

text \<open>
  Claim C3. For a short text, \<^verbatim>\<open>src/server.js\<close> answers with the single undetermined
  record when \<^verbatim>\<open>topN\<close> is 1 and with an empty sequence otherwise, as the claim says
  (\<open>fast_fail_server\<close>). \<^verbatim>\<open>src/unnamed/part_000\<close> answers with the single record for
  every \<^verbatim>\<open>topN\<close>: for the text "hi" and \<^verbatim>\<open>topN\<close> 3 under the default \<^verbatim>\<open>MIN_LEN\<close> of 10 its
  \<^verbatim>\<open>cld3\<close> is the record, where the other file returns the empty sequence.
\<close>

theorem C3_part000_short_text_ignores_topN:
  "fst (classify_part000 default_config \<lparr>body_text = ascii ''hi'', body_topN = Some 3\<rparr> (ready default_config))
     = Reply_response \<lparr>input_len = 2, cld3 = Single und\<rparr>
   \<and> fst (classify default_config \<lparr>body_text = ascii ''hi'', body_topN = Some 3\<rparr> (ready default_config))
     = Reply_response \<lparr>input_len = 2, cld3 = Ranked []\<rparr>"
  by (simp add: classify_part000_def classify_def normalize_input_def slice0_def trim_ascii_hi ready_def
        default_config_def topN_of_def) (simp add: ascii_def)

section \<open>Cache keys\<close>

text \<open>
  Claim C5. In both files the cache key is a function of \<^verbatim>\<open>topN\<close> and the text, so equal
  pairs give equal keys; and for one text, two different values of \<^verbatim>\<open>topN\<close> between 1
  and 10 give different keys.
\<close>

theorem C5_cache_key_of_topN_and_text:
  "(n1 = n2 \<and> t1 = t2 \<longrightarrow>
      cache_key n1 t1 = cache_key n2 t2 \<and> cache_key_part000 n1 t1 = cache_key_part000 n2 t2)
   \<and> (1 \<le> n1 \<and> n1 \<le> 10 \<and> 1 \<le> n2 \<and> n2 \<le> 10 \<and> n1 \<noteq> n2 \<longrightarrow>
      cache_key n1 t \<noteq> cache_key n2 t \<and> cache_key_part000 n1 t \<noteq> cache_key_part000 n2 t)"
proof (intro conjI impI)
  assume "n1 = n2 \<and> t1 = t2"
  then show "cache_key n1 t1 = cache_key n2 t2" and "cache_key_part000 n1 t1 = cache_key_part000 n2 t2"
    by simp_all
next
  assume a: "1 \<le> n1 \<and> n1 \<le> 10 \<and> 1 \<le> n2 \<and> n2 \<le> 10 \<and> n1 \<noteq> n2"
  then show "cache_key n1 t \<noteq> cache_key n2 t"
    unfolding cache_key_def by (simp add: String_int_range_inj)
  show "cache_key_part000 n1 t \<noteq> cache_key_part000 n2 t"
  proof (cases "n1 = 1 \<or> n2 = 1")
    case False
    with a show ?thesis unfolding cache_key_part000_def by (simp add: String_int_range_inj)
  next
    case True
    have longer: "\<And>n. t \<noteq> String_int n @ 0 # t"
    proof
      fix n assume "t = String_int n @ 0 # t"
      then have "length t = length (String_int n @ 0 # t)" by simp
      then show False by simp
    qed
    from True a longer longer [symmetric] show ?thesis
      unfolding cache_key_part000_def by auto
  qed
qed

theorem C5_cache_key_witness:
  "cache_key 1 (ascii ''good morning'') \<noteq> cache_key 10 (ascii ''good morning'')
   \<and> cache_key_part000 1 (ascii ''good morning'') \<noteq> cache_key_part000 10 (ascii ''good morning'')
   \<and> cache_key 3 (ascii ''good morning'') = cache_key (2 + 1) (ascii ''good morning'')
   \<and> cache_key_part000 3 (ascii ''good morning'') = cache_key_part000 (2 + 1) (ascii ''good morning'')"
proof -
  note inst = C5_cache_key_of_topN_and_text
  have "cache_key 1 (ascii ''good morning'') \<noteq> cache_key 10 (ascii ''good morning'')
        \<and> cache_key_part000 1 (ascii ''good morning'') \<noteq> cache_key_part000 10 (ascii ''good morning'')"
    using inst [of 1 10 t1 t2 "ascii ''good morning''" for t1 t2] by simp
  moreover have "cache_key 3 (ascii ''good morning'') = cache_key (2 + 1) (ascii ''good morning'')
     \<and> cache_key_part000 3 (ascii ''good morning'') = cache_key_part000 (2 + 1) (ascii ''good morning'')"
    using inst [of 3 "2 + 1" "ascii ''good morning''" "ascii ''good morning''"] by simp
  ultimately show ?thesis by simp
qed

lemma collision: "fnv1a (ascii ''declinate.'') = fnv1a (ascii ''macallums.'')"
  by (simp add: fnv1a_def ascii_def)

lemma trim_declinate: "trim (ascii ''declinate.'') = ascii ''declinate.''"
  by (rule trim_clean) (simp_all add: ascii_def isWhiteSpace_def)

lemma trim_macallums: "trim (ascii ''macallums.'') = ascii ''macallums.''"
  by (rule trim_clean) (simp_all add: ascii_def isWhiteSpace_def)

lemma normalize_declinate:
  "normalize_input default_config (ascii ''declinate.'') = ascii ''declinate.''"
  by (simp add: normalize_input_def trim_declinate slice0_def default_config_def) (simp add: ascii_def)

lemma normalize_macallums:
  "normalize_input default_config (ascii ''macallums.'') = ascii ''macallums.''"
  by (simp add: normalize_input_def trim_macallums slice0_def default_config_def) (simp add: ascii_def)

text \<open>
  Claim C9. In \<^verbatim>\<open>src/server.js\<close> the texts "declinate." and "macallums." are different,
  have the same length and the same \<^verbatim>\<open>fnv1a\<close> hash, hence the same cache key for every
  \<^verbatim>\<open>topN\<close>. On a freshly started service with the default configuration and any
  detector, classifying the first and then the second with the same \<^verbatim>\<open>topN\<close> returns for
  the second the response computed for the first: the detector has only ever seen the
  first text.
\<close>

theorem C9_digest_key_collision:
  "ascii ''declinate.'' \<noteq> ascii ''macallums.''
   \<and> length (ascii ''declinate.'') = length (ascii ''macallums.'')
   \<and> fnv1a (ascii ''declinate.'') = fnv1a (ascii ''macallums.'')
   \<and> cache_key topN (ascii ''declinate.'') = cache_key topN (ascii ''macallums.'')
   \<and> (let s0 = (initial default_config)\<lparr>identifier_gw := Some ident\<rparr>;
           (r1, s1) = classify default_config \<lparr>body_text = ascii ''declinate.'', body_topN = n\<rparr> s0;
           (r2, s2) = classify default_config \<lparr>body_text = ascii ''macallums.'', body_topN = n\<rparr> s1
       in r1 = Reply_response \<lparr>input_len = 10,
                 cld3 = fst (detect ident (topN_of \<lparr>body_text = ascii ''declinate.'', body_topN = n\<rparr>)
                               (ascii ''declinate.'')
                               (s0\<lparr>trace := [Cache_get (cache_key (topN_of \<lparr>body_text = ascii ''declinate.'', body_topN = n\<rparr>)
                                                            (ascii ''declinate.''))]\<rparr>))\<rparr>
        \<and> r2 = r1
        \<and> detector_inputs (trace s2) = [ascii ''declinate.''])"
proof -
  let ?t1 = "ascii ''declinate.''" and ?t2 = "ascii ''macallums.''"
  let ?b1 = "\<lparr>body_text = ?t1, body_topN = n\<rparr>" and ?b2 = "\<lparr>body_text = ?t2, body_topN = n\<rparr>"
  let ?s0 = "(initial default_config)\<lparr>identifier_gw := Some ident\<rparr>"
  let ?N = "topN_of ?b1"
  let ?k = "cache_key ?N ?t1"
  have distinct: "?t1 \<noteq> ?t2" by (simp add: ascii_def)
  have len: "length ?t1 = length ?t2" by (simp add: ascii_def)
  have key: "cache_key m ?t1 = cache_key m ?t2" for m
    by (simp add: cache_key_def collision len)
  have N: "topN_of ?b2 = ?N" by (simp add: topN_of_def)
  have rdy: "identifier_gw ?s0 = Some ident" by simp
  have empty: "map_lru (cache ?s0) = []" and cap: "1 \<le> max_lru (cache ?s0)"
    and tr: "trace ?s0 = []"
    by (simp_all add: initial_def LRU_new_def default_config_def)
  have ne1: "normalize_input default_config (body_text ?b1) \<noteq> []"
    and long1: "MIN_LEN default_config \<le> int (length (normalize_input default_config (body_text ?b1)))"
    by (simp_all add: normalize_declinate) (simp_all add: ascii_def default_config_def)
  have ne2: "normalize_input default_config (body_text ?b2) \<noteq> []"
    and long2: "MIN_LEN default_config \<le> int (length (normalize_input default_config (body_text ?b2)))"
    by (simp_all add: normalize_macallums) (simp_all add: ascii_def default_config_def)
  let ?first = "lookup_or_detect ident ?N ?t1 ?k ?s0"
  have one: "classify default_config ?b1 ?s0 = ?first"
    using classify_long [OF rdy ne1 long1] by (simp add: normalize_declinate)
  have "identifier_gw (snd ?first) = Some ident" by simp
  from classify_long [OF this ne2 long2]
  have "classify default_config ?b2 (snd ?first) = lookup_or_detect ident ?N ?t2 ?k (snd ?first)"
    by (simp add: normalize_macallums N key)
  also have "\<dots> = (fst ?first, (snd ?first)\<lparr>trace := trace (snd ?first) @ [Cache_get ?k]\<rparr>)"
    using cap by (rule lookup_or_detect_again)
  finally have two: "classify default_config ?b2 (snd ?first)
      = (fst ?first, (snd ?first)\<lparr>trace := trace (snd ?first) @ [Cache_get ?k]\<rparr>)" .
  have r1: "fst ?first = Reply_response \<lparr>input_len = 10,
               cld3 = fst (detect ident ?N ?t1 (?s0\<lparr>trace := [Cache_get ?k]\<rparr>))\<rparr>"
    using lookup_or_detect_miss(1) [OF empty, of ident ?N ?t1 ?k] by (simp add: tr) (simp add: ascii_def)
  have ins: "detector_inputs (trace (snd ?first)) = [?t1]"
    using lookup_or_detect_miss(2) [OF empty, of ident ?N ?t1 ?k]
    by (simp add: tr)
  have "detector_inputs (trace (snd ?first) @ [Cache_get ?k]) = [?t1]"
    using ins by simp
  with distinct len collision key [of topN] r1 show ?thesis
    by (simp add: one two split_beta Let_def)
qed

section \<open>Repeated requests\<close>

text \<open>
  Claim C2. With a ready detector and a cache of capacity at least 1, when the normalized
  text is not shorter than \<^verbatim>\<open>MIN_LEN\<close>, two calls of the handler on the same body, one
  right after the other, give the same reply, and the second call adds no detector call
  to the record; when the text is not empty, all the second call does is one read of
  the cache under the key of the request. This holds for both files.
\<close>

theorem C2_repeat_is_served_from_cache:
  assumes ready: "identifier_gw s = Some ident" and cap: "1 \<le> max_lru (cache s)"
  shows "(MIN_LEN cfg \<le> int (length (normalize_input cfg (body_text b))) \<longrightarrow>
           (let (r1, s1) = classify cfg b s; (r2, s2) = classify cfg b s1 in
              r2 = r1
            \<and> filter is_detector_call (trace s2) = filter is_detector_call (trace s1)
            \<and> (normalize_input cfg (body_text b) \<noteq> [] \<longrightarrow>
                 trace s2 = trace s1 @ [Cache_get (cache_key (topN_of b) (normalize_input cfg (body_text b)))])))
       \<and> (MIN_LEN cfg \<le> int (length (trim (body_text b))) \<longrightarrow>
           (let (r1, s1) = classify_part000 cfg b s; (r2, s2) = classify_part000 cfg b s1 in
              r2 = r1
            \<and> filter is_detector_call (trace s2) = filter is_detector_call (trace s1)
            \<and> (trim (body_text b) \<noteq> [] \<longrightarrow>
                 trace s2 = trace s1 @ [Cache_get (cache_key_part000 (topN_of b) (trim (body_text b)))])))"
proof (intro conjI impI)
  let ?t = "normalize_input cfg (body_text b)"
  let ?k = "cache_key (topN_of b) ?t"
  assume long: "MIN_LEN cfg \<le> int (length ?t)"
  show "let (r1, s1) = classify cfg b s; (r2, s2) = classify cfg b s1 in
              r2 = r1
            \<and> filter is_detector_call (trace s2) = filter is_detector_call (trace s1)
            \<and> (?t \<noteq> [] \<longrightarrow> trace s2 = trace s1 @ [Cache_get ?k])"
  proof (cases "?t = []")
    case True
    with ready show ?thesis by (simp add: classify_empty)
  next
    case False
    let ?first = "lookup_or_detect ident (topN_of b) ?t ?k s"
    have one: "classify cfg b s = ?first"
      using ready False long by (rule classify_long)
    have "identifier_gw (snd ?first) = Some ident" using ready by simp
    then have "classify cfg b (snd ?first) = lookup_or_detect ident (topN_of b) ?t ?k (snd ?first)"
      using False long by (rule classify_long)
    also have "\<dots> = (fst ?first, (snd ?first)\<lparr>trace := trace (snd ?first) @ [Cache_get ?k]\<rparr>)"
      using cap by (rule lookup_or_detect_again)
    finally show ?thesis by (simp add: one split_beta)
  qed
next
  let ?t = "trim (body_text b)"
  let ?k = "cache_key_part000 (topN_of b) ?t"
  assume long: "MIN_LEN cfg \<le> int (length ?t)"
  show "let (r1, s1) = classify_part000 cfg b s; (r2, s2) = classify_part000 cfg b s1 in
              r2 = r1
            \<and> filter is_detector_call (trace s2) = filter is_detector_call (trace s1)
            \<and> (?t \<noteq> [] \<longrightarrow> trace s2 = trace s1 @ [Cache_get ?k])"
  proof (cases "?t = []")
    case True
    with ready show ?thesis by (simp add: classify_part000_empty)
  next
    case False
    let ?first = "lookup_or_detect ident (topN_of b) ?t ?k s"
    have one: "classify_part000 cfg b s = ?first"
      using ready False long by (rule classify_part000_long)
    have "identifier_gw (snd ?first) = Some ident" using ready by simp
    then have "classify_part000 cfg b (snd ?first) = lookup_or_detect ident (topN_of b) ?t ?k (snd ?first)"
      using False long by (rule classify_part000_long)
    also have "\<dots> = (fst ?first, (snd ?first)\<lparr>trace := trace (snd ?first) @ [Cache_get ?k]\<rparr>)"
      using cap by (rule lookup_or_detect_again)
    finally show ?thesis by (simp add: one split_beta)
  qed
qed

theorem C2_repeat_witness:
  "identifier_gw (ready default_config) = Some stub_detector
   \<and> 1 \<le> max_lru (cache (ready default_config))
   \<and> MIN_LEN default_config \<le> int (length (normalize_input default_config (ascii ''good morning to you'')))
   \<and> MIN_LEN default_config \<le> int (length (trim (ascii ''good morning to you'')))
   \<and> fst (classify default_config \<lparr>body_text = ascii ''good morning to you'', body_topN = None\<rparr>
            (snd (classify default_config \<lparr>body_text = ascii ''good morning to you'', body_topN = None\<rparr>
                   (ready default_config))))
     = fst (classify default_config \<lparr>body_text = ascii ''good morning to you'', body_topN = None\<rparr>
              (ready default_config))
   \<and> fst (classify_part000 default_config \<lparr>body_text = ascii ''good morning to you'', body_topN = None\<rparr>
            (snd (classify_part000 default_config \<lparr>body_text = ascii ''good morning to you'', body_topN = None\<rparr>
                   (ready default_config))))
     = fst (classify_part000 default_config \<lparr>body_text = ascii ''good morning to you'', body_topN = None\<rparr>
              (ready default_config))"
proof -
  let ?b = "\<lparr>body_text = ascii ''good morning to you'', body_topN = None\<rparr>"
  have rdy: "identifier_gw (ready default_config) = Some stub_detector"
    by (simp add: ready_def)
  have cap: "1 \<le> max_lru (cache (ready default_config))"
    by (simp add: ready_def initial_def LRU_new_def default_config_def)
  have long: "MIN_LEN default_config \<le> int (length (normalize_input default_config (body_text ?b)))"
    by (simp add: normalize_morning) (simp add: default_config_def ascii_def)
  have long': "MIN_LEN default_config \<le> int (length (trim (body_text ?b)))"
    by (simp add: trim_morning) (simp add: default_config_def ascii_def)
  note inst = C2_repeat_is_served_from_cache [OF rdy cap, of default_config ?b]
  from inst long have "fst (classify default_config ?b (snd (classify default_config ?b (ready default_config))))
     = fst (classify default_config ?b (ready default_config))"
    by (simp add: split_beta)
  moreover from inst long'
  have "fst (classify_part000 default_config ?b (snd (classify_part000 default_config ?b (ready default_config))))
     = fst (classify_part000 default_config ?b (ready default_config))"
    by (simp add: split_beta)
  ultimately show ?thesis using rdy cap long long' by simp
qed

section \<open>The length of the text\<close>

text \<open>
  Claim C4, as amended. In \<^verbatim>\<open>src/server.js\<close> with \<^verbatim>\<open>MAX_INPUT_CHARS\<close> not negative, the
  text is trimmed and then cut to its first \<^verbatim>\<open>MAX_INPUT_CHARS\<close> code units; a response
  that is not a bare cache hit has the length of that text as \<^verbatim>\<open>input_len\<close>, and every
  text the call passes to the detector is that text, so it is never longer than
  \<^verbatim>\<open>MAX_INPUT_CHARS\<close>. In \<^verbatim>\<open>src/unnamed/part_000\<close> the text is trimmed and not cut:
  \<^verbatim>\<open>input_len\<close> is the length of the trimmed text, and the detector receives the whole
  trimmed text.
\<close>

theorem C4_server_cuts_part000_only_trims:
  assumes "0 \<le> MAX_INPUT_CHARS cfg"
  shows "normalize_input cfg raw = take (nat (MAX_INPUT_CHARS cfg)) (trim raw)
       \<and> int (length (normalize_input cfg raw)) \<le> MAX_INPUT_CHARS cfg
       \<and> (classify cfg b s = (Reply_response out, s') \<and> (\<forall>k. trace s' \<noteq> trace s @ [Cache_get k])
            \<longrightarrow> input_len out = length (normalize_input cfg (body_text b)))
       \<and> (\<forall>e \<in> set (drop (length (trace s)) (trace (snd (classify cfg b s)))).
             \<forall>t. detector_input e = Some t
               \<longrightarrow> t = normalize_input cfg (body_text b) \<and> int (length t) \<le> MAX_INPUT_CHARS cfg)
       \<and> (classify_part000 cfg b s = (Reply_response out', s'') \<and> (\<forall>k. trace s'' \<noteq> trace s @ [Cache_get k])
            \<longrightarrow> input_len out' = length (trim (body_text b)))
       \<and> (\<forall>e \<in> set (drop (length (trace s)) (trace (snd (classify_part000 cfg b s)))).
             \<forall>t. detector_input e = Some t \<longrightarrow> t = trim (body_text b))"
proof -
  have cut: "normalize_input cfg raw = take (nat (MAX_INPUT_CHARS cfg)) (trim raw)" for raw
    using assms by (simp add: normalize_input_def slice0_take)
  have bound: "int (length (normalize_input cfg raw)) \<le> MAX_INPUT_CHARS cfg" for raw
    using assms by (simp add: cut)
  have fresh: "classify cfg b s = (Reply_response out, s') \<and> (\<forall>k. trace s' \<noteq> trace s @ [Cache_get k])
            \<longrightarrow> input_len out = length (normalize_input cfg (body_text b))"
    by (auto simp: classify_def Let_def split: option.splits if_splits dest: lookup_or_detect_fresh)
  have inputs: "\<forall>e \<in> set (drop (length (trace s)) (trace (snd (classify cfg b s)))).
             \<forall>t. detector_input e = Some t
               \<longrightarrow> t = normalize_input cfg (body_text b) \<and> int (length t) \<le> MAX_INPUT_CHARS cfg"
    using bound
    by (auto simp: classify_def Let_def split: option.splits if_splits dest: lookup_or_detect_inputs)
  have fresh': "classify_part000 cfg b s = (Reply_response out', s'') \<and> (\<forall>k. trace s'' \<noteq> trace s @ [Cache_get k])
            \<longrightarrow> input_len out' = length (trim (body_text b))"
    by (auto simp: classify_part000_def Let_def split: option.splits if_splits dest: lookup_or_detect_fresh)
  have inputs': "\<forall>e \<in> set (drop (length (trace s)) (trace (snd (classify_part000 cfg b s)))).
             \<forall>t. detector_input e = Some t \<longrightarrow> t = trim (body_text b)"
    by (auto simp: classify_part000_def Let_def split: option.splits if_splits dest: lookup_or_detect_inputs)
  from cut bound fresh inputs fresh' inputs' show ?thesis by blast
qed

text \<open>
  \<^verbatim>\<open>src/unnamed/part_000\<close> has no \<^verbatim>\<open>MAX_INPUT_CHARS\<close>: a text of 4001 letters goes to the
  detector whole and comes back with \<^verbatim>\<open>input_len\<close> 4001. And in \<^verbatim>\<open>src/server.js\<close> a
  negative \<^verbatim>\<open>MAX_INPUT_CHARS\<close> makes \<^verbatim>\<open>slice\<close> drop code units from the end instead.
\<close>

theorem C4_part000_counterexample:
  "MAX_INPUT_CHARS default_config = 4000
   \<and> length (replicate 4001 (97 :: 16 word)) = 4001
   \<and> fst (classify_part000 default_config \<lparr>body_text = replicate 4001 97, body_topN = None\<rparr>
            (ready default_config))
       = Reply_response \<lparr>input_len = 4001,
           cld3 = Single \<lparr>language = ''en'', probability = 1, is_reliable = True, proportion = 1\<rparr>\<rparr>
   \<and> Find_language (replicate 4001 97)
       \<in> set (trace (snd (classify_part000 default_config \<lparr>body_text = replicate 4001 97, body_topN = None\<rparr>
                            (ready default_config))))
   \<and> normalize_input (default_config\<lparr>MAX_INPUT_CHARS := - 1\<rparr>) (ascii ''good morning to you'')
       = ascii ''good morning to yo''"
proof -
  let ?b = "\<lparr>body_text = replicate 4001 (97 :: 16 word), body_topN = None\<rparr>"
  have t: "trim (replicate 4001 (97 :: 16 word)) = replicate 4001 97" by (simp add: trim_replicate_a)
  have ne: "trim (body_text ?b) \<noteq> []" by (simp add: t)
  have long: "MIN_LEN default_config \<le> int (length (trim (body_text ?b)))"
    by (simp add: t) (simp add: default_config_def)
  have "classify_part000 default_config ?b (ready default_config)
        = lookup_or_detect stub_detector (topN_of ?b) (trim (body_text ?b))
            (cache_key_part000 (topN_of ?b) (trim (body_text ?b))) (ready default_config)"
    using ready_facts(1) ne long by (rule classify_part000_long)
  also have "topN_of ?b = 1" by (simp add: topN_of_def)
  finally have "classify_part000 default_config ?b (ready default_config)
        = lookup_or_detect stub_detector 1 (replicate 4001 97) (replicate 4001 97) (ready default_config)"
    by (simp add: t cache_key_part000_def)
  moreover have "0 < max_lru (cache (ready default_config))"
    by (simp add: ready_facts default_config_def)
  ultimately have run: "classify_part000 default_config ?b (ready default_config) = 
      (Reply_response \<lparr>input_len = 4001, cld3 = Single (findLanguage stub_detector [Cache_get (replicate 4001 97)] (replicate 4001 97))\<rparr>,
           (ready default_config)\<lparr>cache := (cache (ready default_config))\<lparr>map_lru :=
                  [(replicate 4001 97, \<lparr>input_len = 4001, cld3 = Single (findLanguage stub_detector [Cache_get (replicate 4001 97)] (replicate 4001 97))\<rparr>)]\<rparr>,
              trace := [Cache_get (replicate 4001 97), Find_language (replicate 4001 97),
                  Cache_set (replicate 4001 97) \<lparr>input_len = 4001, cld3 = Single (findLanguage stub_detector [Cache_get (replicate 4001 97)] (replicate 4001 97))\<rparr>]\<rparr>)"
    using lookup_or_detect_empty_cache [of "ready default_config" stub_detector "replicate 4001 97" "replicate 4001 97"]
    by (simp add: ready_facts)
  have neg: "normalize_input (default_config\<lparr>MAX_INPUT_CHARS := - 1\<rparr>) (ascii ''good morning to you'')
       = ascii ''good morning to yo''"
    by (simp add: normalize_input_def trim_morning slice0_def) (simp add: ascii_def)
  show ?thesis
    by (simp add: run neg) (simp add: default_config_def stub_detector_def)
qed

theorem C4_server_witness:
  "0 \<le> MAX_INPUT_CHARS default_config
   \<and> normalize_input default_config (replicate 4001 97) = replicate 4000 97
   \<and> int (length (normalize_input default_config (replicate 4001 97))) \<le> MAX_INPUT_CHARS default_config
   \<and> fst (classify default_config \<lparr>body_text = replicate 4001 97, body_topN = None\<rparr> (ready default_config))
       = Reply_response \<lparr>input_len = 4000,
           cld3 = Single \<lparr>language = ''en'', probability = 1, is_reliable = True, proportion = 1\<rparr>\<rparr>
   \<and> trace (snd (classify default_config \<lparr>body_text = replicate 4001 97, body_topN = None\<rparr> (ready default_config)))
       = [Cache_get (cache_key 1 (replicate 4000 97)), Find_language (replicate 4000 97),
          Cache_set (cache_key 1 (replicate 4000 97)) \<lparr>input_len = 4000,
            cld3 = Single \<lparr>language = ''en'', probability = 1, is_reliable = True, proportion = 1\<rparr>\<rparr>]"
proof -
  let ?b = "\<lparr>body_text = replicate 4001 (97 :: 16 word), body_topN = None\<rparr>"
  let ?k = "cache_key 1 (replicate 4000 97)"
  let ?out = "\<lparr>input_len = 4000,
           cld3 = Single \<lparr>language = ''en'', probability = 1, is_reliable = True, proportion = 1\<rparr>\<rparr>"
  have nonneg: "0 \<le> MAX_INPUT_CHARS default_config" by (simp add: default_config_def)
  note inst = C4_server_cuts_part000_only_trims [OF nonneg, of "replicate 4001 97"]
  have t: "trim (replicate 4001 (97 :: 16 word)) = replicate 4001 97" by (simp add: trim_replicate_a)
  from inst have "normalize_input default_config (replicate 4001 97)
                  = take (nat (MAX_INPUT_CHARS default_config)) (trim (replicate 4001 97))"
    by (rule conjunct1)
  then have n: "normalize_input default_config (replicate 4001 97) = replicate 4000 97"
    by (simp add: t default_config_def)
  from inst have bound: "int (length (normalize_input default_config (replicate 4001 97))) \<le> MAX_INPUT_CHARS default_config"
    by (rule conjunct2 [THEN conjunct1])
  have ne: "normalize_input default_config (body_text ?b) \<noteq> []" by (simp add: n)
  have long: "MIN_LEN default_config \<le> int (length (normalize_input default_config (body_text ?b)))"
    by (simp add: n) (simp add: default_config_def)
  have "classify default_config ?b (ready default_config)
        = lookup_or_detect stub_detector (topN_of ?b) (normalize_input default_config (body_text ?b))
            (cache_key (topN_of ?b) (normalize_input default_config (body_text ?b))) (ready default_config)"
    using ready_facts(1) ne long by (rule classify_long)
  also have "topN_of ?b = 1" by (simp add: topN_of_def)
  finally have "classify default_config ?b (ready default_config)
        = lookup_or_detect stub_detector 1 (replicate 4000 97) ?k (ready default_config)"
    by (simp add: n)
  moreover have "0 < max_lru (cache (ready default_config))"
    by (simp add: ready_facts default_config_def)
  ultimately have run: "classify default_config ?b (ready default_config) =
      (Reply_response ?out,
       (ready default_config)\<lparr>cache := (cache (ready default_config))\<lparr>map_lru := [(?k, ?out)]\<rparr>,
              trace := [Cache_get ?k, Find_language (replicate 4000 97), Cache_set ?k ?out]\<rparr>)"
    using lookup_or_detect_empty_cache [of "ready default_config" stub_detector "replicate 4000 97" ?k]
    by (simp add: ready_facts stub_detector_def)
  show ?thesis
    using nonneg n bound by (simp add: run)
qed

section \<open>Requests served after the start\<close>

lemma classify_ready:
  assumes "identifier_gw s \<noteq> None"
  shows "status (fst (classify cfg b s)) \<noteq> 503 \<and> identifier_gw (snd (classify cfg b s)) \<noteq> None"
  using assms by (auto simp: classify_def Let_def split: if_splits)

lemma classify_part000_ready:
  assumes "identifier_gw s \<noteq> None"
  shows "status (fst (classify_part000 cfg b s)) \<noteq> 503
       \<and> identifier_gw (snd (classify_part000 cfg b s)) \<noteq> None"
  using assms by (auto simp: classify_part000_def Let_def split: if_splits)

lemma route_ready:
  assumes h: "\<And>b s. identifier_gw s \<noteq> None \<Longrightarrow>
                status (fst (h cfg b s)) \<noteq> 503 \<and> identifier_gw (snd (h cfg b s)) \<noteq> None"
    and "identifier_gw s \<noteq> None"
  shows "status (fst (route h cfg r s)) \<noteq> 503 \<and> identifier_gw (snd (route h cfg r s)) \<noteq> None"
  using assms by (cases r) auto

lemma serve_step:
  "r \<noteq> Signal \<Longrightarrow>
   serve h cfg (r # rs) p =
     (if listening p
      then fst (route h cfg r (gw p)) # serve h cfg rs (p\<lparr>gw := snd (route h cfg r (gw p))\<rparr>)
      else [])"
  by (cases r) (simp_all add: split_beta)

lemma serve_ready:
  assumes h: "\<And>b s. identifier_gw s \<noteq> None \<Longrightarrow>
                status (fst (h cfg b s)) \<noteq> 503 \<and> identifier_gw (snd (h cfg b s)) \<noteq> None"
  shows "identifier_gw (gw p) \<noteq> None \<Longrightarrow> \<forall>r \<in> set (serve h cfg reqs p). status r \<noteq> 503"
proof (induction reqs arbitrary: p)
  case Nil
  show ?case by simp
next
  case (Cons r rs)
  show ?case
  proof (cases "r = Signal")
    case True
    then show ?thesis by simp
  next
    case False
    from route_ready [of h cfg "gw p" r, OF h Cons.prems]
    have now: "status (fst (route h cfg r (gw p))) \<noteq> 503"
      and next_ready: "identifier_gw (gw (p\<lparr>gw := snd (route h cfg r (gw p))\<rparr>)) \<noteq> None"
      by simp_all
    from Cons.IH [OF next_ready]
    have later: "\<forall>x \<in> set (serve h cfg rs (p\<lparr>gw := snd (route h cfg r (gw p))\<rparr>)). status x \<noteq> 503" .
    show ?thesis
      unfolding serve_step [OF False] using now later by auto
  qed
qed

lemma main_listening:
  "listening (main cfg env) \<Longrightarrow> identifier_gw (gw (main cfg env)) \<noteq> None"
  by (auto simp: main_def initDetector_def Let_def split: outcome.splits)

lemma serve_not_listening: "\<not> listening p \<Longrightarrow> serve h cfg reqs p = []"
  by (induction h cfg reqs p rule: serve.induct) simp_all

text \<open>
  Claim C10. The module body awaits \<^verbatim>\<open>initDetector()\<close> before it registers the routes
  and calls \<^verbatim>\<open>app.listen\<close>. So a process that listens has a handle in \<^verbatim>\<open>identifier\<close>; when
  loading or creating the detector throws, the process does not listen and serves
  nothing; and no reply to a request served by either file has status 503, the status
  of the two not-ready branches.
\<close>

theorem C10_served_requests_find_detector:
  "(listening (main cfg env) \<longrightarrow> identifier_gw (gw (main cfg env)) \<noteq> None)
   \<and> (load_and_create env = Throws \<longrightarrow>
        \<not> listening (main cfg env) \<and> serve classify cfg reqs (main cfg env) = []
        \<and> serve classify_part000 cfg reqs (main cfg env) = [])
   \<and> (\<forall>r \<in> set (serve classify cfg reqs (main cfg env)). status r \<noteq> 503)
   \<and> (\<forall>r \<in> set (serve classify_part000 cfg reqs (main cfg env)). status r \<noteq> 503)"
proof (intro conjI impI)
  show "identifier_gw (gw (main cfg env)) \<noteq> None" if "listening (main cfg env)"
    using that by (rule main_listening)
next
  assume "load_and_create env = Throws"
  then show off: "\<not> listening (main cfg env)"
    by (simp add: main_def initDetector_def Let_def split: outcome.splits)
  then show "serve classify cfg reqs (main cfg env) = []"
    and "serve classify_part000 cfg reqs (main cfg env) = []"
    by (rule serve_not_listening)+
next
  show "\<forall>r \<in> set (serve classify cfg reqs (main cfg env)). status r \<noteq> 503"
  proof (cases "listening (main cfg env)")
    case True
    then have "identifier_gw (gw (main cfg env)) \<noteq> None" by (rule main_listening)
    show ?thesis
    proof (rule serve_ready)
      show "identifier_gw (gw (main cfg env)) \<noteq> None" by fact
      show "status (fst (classify cfg b s)) \<noteq> 503 \<and> identifier_gw (snd (classify cfg b s)) \<noteq> None"
        if "identifier_gw s \<noteq> None" for b s
        using that by (rule classify_ready)
    qed
  next
    case False
    then show ?thesis by (simp add: serve_not_listening)
  qed
next
  show "\<forall>r \<in> set (serve classify_part000 cfg reqs (main cfg env)). status r \<noteq> 503"
  proof (cases "listening (main cfg env)")
    case True
    then have "identifier_gw (gw (main cfg env)) \<noteq> None" by (rule main_listening)
    show ?thesis
    proof (rule serve_ready)
      show "identifier_gw (gw (main cfg env)) \<noteq> None" by fact
      show "status (fst (classify_part000 cfg b s)) \<noteq> 503 \<and> identifier_gw (snd (classify_part000 cfg b s)) \<noteq> None"
        if "identifier_gw s \<noteq> None" for b s
        using that by (rule classify_part000_ready)
    qed
  next
    case False
    then show ?thesis by (simp add: serve_not_listening)
  qed
qed

theorem C10_served_requests_witness:
  "listening (main default_config (sample_startup (Returns stub_detector)))
   \<and> identifier_gw (gw (main default_config (sample_startup (Returns stub_detector)))) \<noteq> None
   \<and> serve classify default_config
        [Ready, Classify \<lparr>body_text = ascii ''hi'', body_topN = None\<rparr>, Health]
        (main default_config (sample_startup (Returns stub_detector)))
       = [Reply_ok 200 True, Reply_response \<lparr>input_len = 2, cld3 = Single und\<rparr>, Reply_ok 200 True]
   \<and> serve classify_part000 default_config
        [Ready, Classify \<lparr>body_text = ascii ''hi'', body_topN = None\<rparr>, Health]
        (main default_config (sample_startup (Returns stub_detector)))
       = [Reply_ok 200 True, Reply_response \<lparr>input_len = 2, cld3 = Single und\<rparr>, Reply_ok 200 True]
   \<and> load_and_create (sample_startup Throws) = Throws
   \<and> \<not> listening (main default_config (sample_startup Throws))
   \<and> serve classify default_config [Ready] (main default_config (sample_startup Throws)) = []
   \<and> serve classify_part000 default_config [Ready] (main default_config (sample_startup Throws)) = []"
proof -
  let ?up = "main default_config (sample_startup (Returns stub_detector))"
  let ?down = "main default_config (sample_startup Throws)"
  have up: "?up = \<lparr>gw = ready default_config, listening = True\<rparr>"
    by (simp add: main_def sample_startup_def initDetector_def ready_def)
  have hi: "normalize_input default_config (ascii ''hi'') = ascii ''hi''"
    by (simp add: normalize_input_def trim_ascii_hi slice0_def default_config_def) (simp add: ascii_def)
  have down: "?down = \<lparr>gw = initial default_config, listening = False\<rparr>"
    by (simp add: main_def sample_startup_def initDetector_def)
  have rdy: "identifier_gw (ready default_config) = Some stub_detector" by (simp add: ready_def)
  have short: "classify default_config \<lparr>body_text = ascii ''hi'', body_topN = None\<rparr> (ready default_config)
      = (Reply_response \<lparr>input_len = 2, cld3 = Single und\<rparr>, ready default_config)"
    using fast_fail_server [OF rdy, of default_config "\<lparr>body_text = ascii ''hi'', body_topN = None\<rparr>"]
    by (simp add: hi topN_of_def) (simp add: ascii_def default_config_def)
  have short': "classify_part000 default_config \<lparr>body_text = ascii ''hi'', body_topN = None\<rparr> (ready default_config)
      = (Reply_response \<lparr>input_len = 2, cld3 = Single und\<rparr>, ready default_config)"
    using fast_fail_part000 [OF rdy, of "\<lparr>body_text = ascii ''hi'', body_topN = None\<rparr>" default_config]
    by (simp add: trim_ascii_hi) (simp add: ascii_def default_config_def)
  note inst = C10_served_requests_find_detector
                [where cfg = default_config and env = "sample_startup (Returns stub_detector)"]
  have on: "listening ?up" by (simp add: up)
  with inst have handle: "identifier_gw (gw ?up) \<noteq> None" by blast
  have thrown: "load_and_create (sample_startup Throws) = Throws" by (simp add: sample_startup_def)
  from C10_served_requests_find_detector
         [where cfg = default_config and env = "sample_startup Throws" and reqs = "[Ready]"] thrown
  have off: "\<not> listening ?down \<and> serve classify default_config [Ready] ?down = []
       \<and> serve classify_part000 default_config [Ready] ?down = []"
    by blast
  have replies: "serve classify default_config
        [Ready, Classify \<lparr>body_text = ascii ''hi'', body_topN = None\<rparr>, Health] ?up
       = [Reply_ok 200 True, Reply_response \<lparr>input_len = 2, cld3 = Single und\<rparr>, Reply_ok 200 True]"
    and replies': "serve classify_part000 default_config
        [Ready, Classify \<lparr>body_text = ascii ''hi'', body_topN = None\<rparr>, Health] ?up
       = [Reply_ok 200 True, Reply_response \<lparr>input_len = 2, cld3 = Single und\<rparr>, Reply_ok 200 True]"
    by (simp_all add: up short short' rdy)
  from on handle replies replies' thrown off show ?thesis by (intro conjI) simp_all
qed

end
